theory Spec2Isabelle
  imports Main
begin

section \<open>Constants and arrays\<close>

text \<open>
  The module constants of \<^verbatim>\<open>tetris_solver.py\<close>. The dictionary
  \<^verbatim>\<open>LINE_CLEAR_POINTS\<close> is a finite map; a missing key is \<open>None\<close>.
\<close>

definition BOARD_WIDTH :: nat where
  "BOARD_WIDTH = 10"

definition BOARD_HEIGHT :: nat where
  "BOARD_HEIGHT = 20"

definition LINE_CLEAR_POINTS :: "int \<Rightarrow> int option" where
  "LINE_CLEAR_POINTS = map_of [(1, 100), (2, 300), (3, 500), (4, 800)]"

text \<open>
  A two-dimensional numpy array of integers is the list of its rows. numpy arrays are
  rectangular; the arrays of the program (the 20 x 10 board, the tetromino shapes) have
  at least one row. Exceptions of the program are values of \<open>error\<close>.
\<close>

type_synonym ndarray = "int list list"

datatype error = IndexError | KeyError

definition shape :: "ndarray \<Rightarrow> nat \<times> nat" where
  "shape a = (length a, (case a of [] \<Rightarrow> 0 | r # _ \<Rightarrow> length r))"

text \<open>
  numpy indexing along an axis of length \<open>n\<close>: an index in \<open>[0, n)\<close> is itself, an
  index in \<open>[-n, 0)\<close> counts from the end, anything else raises IndexError.
\<close>

definition np_index :: "nat \<Rightarrow> int \<Rightarrow> error + nat" where
  "np_index n i =
     (if 0 \<le> i \<and> i < int n then Inr (nat i)
      else if - int n \<le> i \<and> i < 0 then Inr (nat (i + int n))
      else Inl IndexError)"

text \<open>\<^verbatim>\<open>a[r, c]\<close> as a read and \<^verbatim>\<open>a[r, c] = v\<close> as a write.\<close>

definition array_get :: "ndarray \<Rightarrow> int \<Rightarrow> int \<Rightarrow> error + int" where
  "array_get a r c =
     (case np_index (length a) r of
        Inl e \<Rightarrow> Inl e
      | Inr r' \<Rightarrow>
          (case np_index (length (a ! r')) c of
             Inl e \<Rightarrow> Inl e
           | Inr c' \<Rightarrow> Inr (a ! r' ! c')))"

definition array_set :: "ndarray \<Rightarrow> int \<Rightarrow> int \<Rightarrow> int \<Rightarrow> error + ndarray" where
  "array_set a r c v =
     (case np_index (length a) r of
        Inl e \<Rightarrow> Inl e
      | Inr r' \<Rightarrow>
          (case np_index (length (a ! r')) c of
             Inl e \<Rightarrow> Inl e
           | Inr c' \<Rightarrow> Inr (a[r' := (a ! r')[c' := v]])))"

section \<open>Rotations\<close>

text \<open>
  \<^verbatim>\<open>np.rot90(m, k)\<close> turns the array counterclockwise by \<open>k\<close> quarter turns. numpy
  computes it as: \<open>k mod 4 = 0\<close> the array itself; \<open>2\<close> both axes flipped; \<open>1\<close> the
  transpose of the array with axis 1 flipped; \<open>3\<close> the transpose, then axis 1 flipped.
\<close>

definition rot90 :: "ndarray \<Rightarrow> nat \<Rightarrow> ndarray" where
  "rot90 m k =
     (let k' = k mod 4 in
      if k' = 0 then m
      else if k' = 2 then map rev (rev m)
      else if k' = 1 then transpose (map rev m)
      else map rev (transpose m))"

text \<open>
  \<^verbatim>\<open>get_rotations\<close>: the loop over \<open>range(4)\<close> with the accumulator
  \<^verbatim>\<open>rotations\<close>; \<^verbatim>\<open>np.array_equal\<close> is equality of shape and of every element.
\<close>

fun get_rotations_loop :: "ndarray \<Rightarrow> nat list \<Rightarrow> ndarray list \<Rightarrow> ndarray list" where
  "get_rotations_loop piece [] rotations = rotations"
| "get_rotations_loop piece (i # is) rotations =
     (let rotated = rot90 piece i in
      if \<not> list_ex (\<lambda>r. rotated = r) rotations
      then get_rotations_loop piece is (rotations @ [rotated])
      else get_rotations_loop piece is rotations)"

definition get_rotations :: "ndarray \<Rightarrow> ndarray list" where
  "get_rotations piece = get_rotations_loop piece [0..<4] []"

definition BASE_TETROMINOS :: "(string \<times> ndarray) list" where
  "BASE_TETROMINOS =
     [(''I'', [[1, 1, 1, 1]]),
      (''O'', [[1, 1],
               [1, 1]]),
      (''T'', [[0, 1, 0],
               [1, 1, 1]]),
      (''L'', [[0, 0, 1],
               [1, 1, 1]]),
      (''J'', [[1, 0, 0],
               [1, 1, 1]]),
      (''S'', [[0, 1, 1],
               [1, 1, 0]]),
      (''Z'', [[1, 1, 0],
               [0, 1, 1]])]"

definition TETROMINOS :: "(string \<times> ndarray list) list" where
  "TETROMINOS = map (\<lambda>(k, shp). (k, get_rotations shp)) BASE_TETROMINOS"

section \<open>The solver state\<close>

text \<open>
  The attributes of a \<^verbatim>\<open>TetrisSolver\<close> object. The counters are integers within
  the range of numpy's 64-bit signed integers: they start as the Python integers 0, 0
  and 1, and \<^verbatim>\<open>clear_lines\<close> combines them with the numpy count of the full rows,
  which gives 64-bit integers. They are modelled as \<open>int\<close>; the 64-bit arithmetic of
  \<^verbatim>\<open>clear_lines\<close> is written out with \<open>wrap64\<close>. Printing is not modelled.
  Arrays are values in the model: the program never writes to an array that a second
  name refers to (\<^verbatim>\<open>best_move\<close> keeps a copy, \<^verbatim>\<open>clear_lines\<close> fills a fresh
  array with the values of the rows).
\<close>

record TetrisSolver =
  board :: ndarray
  score :: int
  lines_cleared :: int
  level :: int

definition init_solver :: TetrisSolver where
  "init_solver =
     \<lparr>board = replicate BOARD_HEIGHT (replicate BOARD_WIDTH 0),
      score = 0, lines_cleared = 0, level = 1\<rparr>"

subsection \<open>can_place\<close>

text \<open>
  The nested loop of \<^verbatim>\<open>can_place\<close> over the cells of the piece in row-major order.
  It returns at the first occupied piece cell that lies on a board cell equal to 1; a
  board read out of range raises.
\<close>

fun can_place_loop :: "ndarray \<Rightarrow> ndarray \<Rightarrow> int \<Rightarrow> int \<Rightarrow> (nat \<times> nat) list \<Rightarrow> error + bool" where
  "can_place_loop b piece x y [] = Inr True"
| "can_place_loop b piece x y ((i, j) # ijs) =
     (if piece ! i ! j = 1 then
        (case array_get b (x + int i) (y + int j) of
           Inl e \<Rightarrow> Inl e
         | Inr v \<Rightarrow> if v = 1 then Inr False else can_place_loop b piece x y ijs)
      else can_place_loop b piece x y ijs)"

definition can_place :: "TetrisSolver \<Rightarrow> ndarray \<Rightarrow> int \<Rightarrow> int \<Rightarrow> error + bool" where
  "can_place s piece x y =
     (let (piece_h, piece_w) = shape piece in
      if y < 0 \<or> y + int piece_w > int BOARD_WIDTH then Inr False
      else if x + int piece_h > int BOARD_HEIGHT then Inr False
      else can_place_loop (board s) piece x y (List.product [0..<piece_h] [0..<piece_w]))"

subsection \<open>place_piece\<close>

fun place_piece_loop :: "ndarray \<Rightarrow> ndarray \<Rightarrow> int \<Rightarrow> int \<Rightarrow> (nat \<times> nat) list \<Rightarrow> error + ndarray" where
  "place_piece_loop b piece x y [] = Inr b"
| "place_piece_loop b piece x y ((i, j) # ijs) =
     (if piece ! i ! j = 1 then
        (case array_set b (x + int i) (y + int j) 1 of
           Inl e \<Rightarrow> Inl e
         | Inr b' \<Rightarrow> place_piece_loop b' piece x y ijs)
      else place_piece_loop b piece x y ijs)"

definition place_piece :: "TetrisSolver \<Rightarrow> ndarray \<Rightarrow> int \<Rightarrow> int \<Rightarrow> error + (bool \<times> TetrisSolver)" where
  "place_piece s piece x y =
     (case can_place s piece x y of
        Inl e \<Rightarrow> Inl e
      | Inr ok \<Rightarrow>
          if \<not> ok then Inr (False, s)
          else
            (let (piece_h, piece_w) = shape piece in
             case place_piece_loop (board s) piece x y (List.product [0..<piece_h] [0..<piece_w]) of
               Inl e \<Rightarrow> Inl e
             | Inr b' \<Rightarrow> Inr (True, s\<lparr>board := b'\<rparr>)))"

subsection \<open>clear_lines\<close>

text \<open>
  \<^verbatim>\<open>np.all(self.board == 1, axis=1)\<close> is one boolean per row; \<^verbatim>\<open>np.sum\<close> counts
  the true ones.
\<close>

definition full_rows :: "ndarray \<Rightarrow> bool list" where
  "full_rows b = map (\<lambda>row. list_all (\<lambda>c. c = 1) row) b"

definition count_true :: "bool list \<Rightarrow> int" where
  "count_true bs = int (length (filter (\<lambda>v. v) bs))"

definition zeros_like :: "ndarray \<Rightarrow> ndarray" where
  "zeros_like a = map (\<lambda>row. map (\<lambda>_. 0) row) a"

text \<open>
  The compaction loop, \<open>idx\<close> running over \<^verbatim>\<open>range(BOARD_HEIGHT - 1, -1, -1)\<close>, with
  the variables \<^verbatim>\<open>new_board\<close> and \<^verbatim>\<open>new_idx\<close> as accumulators.
\<close>

fun clear_lines_loop :: "ndarray \<Rightarrow> bool list \<Rightarrow> nat list \<Rightarrow> ndarray \<Rightarrow> int \<Rightarrow> error + (ndarray \<times> int)" where
  "clear_lines_loop b fr [] new_board new_idx = Inr (new_board, new_idx)"
| "clear_lines_loop b fr (idx # idxs) new_board new_idx =
     (if \<not> idx < length fr then Inl IndexError
      else if \<not> fr ! idx then
        (case np_index (length new_board) new_idx of
           Inl e \<Rightarrow> Inl e
         | Inr k \<Rightarrow>
             if \<not> idx < length b then Inl IndexError
             else clear_lines_loop b fr idxs (new_board[k := b ! idx]) (new_idx - 1))
      else clear_lines_loop b fr idxs new_board new_idx)"

text \<open>
  The result of an addition or a multiplication of 64-bit signed integers: the
  mathematical result reduced into \<open>[-2^63, 2^63)\<close>. Floor division by a positive
  constant needs no reduction.
\<close>

definition wrap64 :: "int \<Rightarrow> int" where
  "wrap64 v = (v + 2 ^ 63) mod 2 ^ 64 - 2 ^ 63"

text \<open>
  \<^verbatim>\<open>num_cleared\<close> is a numpy integer, so the sums and products with it, and with a
  level above 1 derived from it, are 64-bit: \<^verbatim>\<open>self.lines_cleared += num_cleared\<close>,
  \<^verbatim>\<open>self.lines_cleared // 10 + 1\<close>, \<^verbatim>\<open>LINE_CLEAR_POINTS[num_cleared] * self.level\<close>,
  \<^verbatim>\<open>1000 * self.level * num_cleared // 4\<close> (two products, then the division) and
  \<^verbatim>\<open>self.score += points\<close>. \<^verbatim>\<open>max(1, v)\<close> is the Python integer 1 when \<open>v\<close>
  is at most 1; a product with it is the other factor. The score is taken as a 64-bit
  integer: it is a Python integer only as long as every clear was of at most four rows
  at level 1, where it is far from the 64-bit bounds and the sum is the same number.
\<close>

definition clear_lines :: "TetrisSolver \<Rightarrow> error + (int \<times> TetrisSolver)" where
  "clear_lines s =
     (let fr = full_rows (board s);
          num_cleared = count_true fr
      in
      if num_cleared > 0 then
        (case clear_lines_loop (board s) fr (rev [0..<BOARD_HEIGHT]) (zeros_like (board s))
                (int BOARD_HEIGHT - 1) of
           Inl e \<Rightarrow> Inl e
         | Inr (new_board, _) \<Rightarrow>
             (let lc = wrap64 (lines_cleared s + num_cleared);
                  lvl = max 1 (wrap64 (lc div 10 + 1))
              in
              if 1 \<le> num_cleared \<and> num_cleared \<le> 4 then
                (case LINE_CLEAR_POINTS num_cleared of
                   None \<Rightarrow> Inl KeyError
                 | Some pts \<Rightarrow>
                     (let points = wrap64 (pts * lvl) in
                      Inr (num_cleared,
                           s\<lparr>board := new_board, lines_cleared := lc, level := lvl,
                             score := wrap64 (score s + points)\<rparr>)))
              else
                (let points = wrap64 (wrap64 (1000 * lvl) * num_cleared) div 4 in
                 Inr (num_cleared,
                      s\<lparr>board := new_board, lines_cleared := lc, level := lvl,
                        score := wrap64 (score s + points)\<rparr>))))
      else Inr (num_cleared, s))"

subsection \<open>evaluate_board\<close>

text \<open>\<^verbatim>\<open>self.board[:, col]\<close>: the column, or IndexError when a row is too short.\<close>

definition column :: "ndarray \<Rightarrow> nat \<Rightarrow> error + int list" where
  "column b col =
     (if list_all (\<lambda>row. col < length row) b then Inr (map (\<lambda>row. row ! col) b)
      else Inl IndexError)"

text \<open>\<^verbatim>\<open>np.where(v == 1)[0]\<close>: the indices of the entries equal to 1, ascending.\<close>

definition where_one :: "int list \<Rightarrow> nat list" where
  "where_one v = filter (\<lambda>r. v ! r = 1) [0..<length v]"

text \<open>
  \<^verbatim>\<open>sum(1 for row in range(filled[0]+1, BOARD_HEIGHT) if self.board[row, col] == 0)\<close>
\<close>

fun count_holes :: "ndarray \<Rightarrow> nat \<Rightarrow> nat list \<Rightarrow> error + int" where
  "count_holes b col [] = Inr 0"
| "count_holes b col (row # rows) =
     (case array_get b (int row) (int col) of
        Inl e \<Rightarrow> Inl e
      | Inr v \<Rightarrow>
          (case count_holes b col rows of
             Inl e \<Rightarrow> Inl e
           | Inr k \<Rightarrow> Inr ((if v = 0 then 1 else 0) + k)))"

text \<open>
  The loop over the columns, with \<^verbatim>\<open>column_heights\<close> and \<^verbatim>\<open>holes\<close> as
  accumulators.
\<close>

fun evaluate_columns :: "ndarray \<Rightarrow> nat list \<Rightarrow> int list \<Rightarrow> int \<Rightarrow> error + (int list \<times> int)" where
  "evaluate_columns b [] column_heights holes = Inr (column_heights, holes)"
| "evaluate_columns b (col # cols) column_heights holes =
     (case column b col of
        Inl e \<Rightarrow> Inl e
      | Inr v \<Rightarrow>
          (let filled = where_one v in
           if length filled > 0 then
             (let height = int BOARD_HEIGHT - int (hd filled) in
              case count_holes b col [hd filled + 1 ..< BOARD_HEIGHT] of
                Inl e \<Rightarrow> Inl e
              | Inr k \<Rightarrow> evaluate_columns b cols (column_heights @ [height]) (holes + k))
           else evaluate_columns b cols (column_heights @ [0]) holes))"

definition bumpiness_of :: "int list \<Rightarrow> int" where
  "bumpiness_of hs = sum_list (map (\<lambda>i. \<bar>hs ! i - hs ! (i + 1)\<bar>) [0..<length hs - 1])"

definition evaluate_board :: "TetrisSolver \<Rightarrow> error + int" where
  "evaluate_board s =
     (let fr = full_rows (board s);
          lc = count_true fr
      in
      case evaluate_columns (board s) [0..<BOARD_WIDTH] [] 0 of
        Inl e \<Rightarrow> Inl e
      | Inr (column_heights, holes) \<Rightarrow>
          (let bumpiness = bumpiness_of column_heights;
               agg_height = sum_list column_heights
           in
           Inr (lc * 500 + (4 - lc) * (- 50) + holes * (- 50) + bumpiness * (- 10)
                + agg_height * (- 1))))"

subsection \<open>best_move\<close>

text \<open>
  \<^verbatim>\<open>best_score\<close> starts as \<^verbatim>\<open>-np.inf\<close> and is an integer score afterwards;
  \<^verbatim>\<open>best_move\<close> starts as \<^verbatim>\<open>None\<close>.
\<close>

datatype best_score = NegInf | Fin int

fun score_gt :: "int \<Rightarrow> best_score \<Rightarrow> bool" where
  "score_gt sc NegInf = True"
| "score_gt sc (Fin b) = (sc > b)"

type_synonym move = "int \<times> int \<times> nat"

type_synonym best = "move option \<times> best_score"

text \<open>
  The gravity loop \<^verbatim>\<open>while self.can_place(piece, x + 1, y): x += 1\<close>. It ends
  because \<^verbatim>\<open>can_place\<close> is false once \<open>x + piece_h\<close> exceeds the board height.
\<close>

function drop_loop :: "TetrisSolver \<Rightarrow> ndarray \<Rightarrow> int \<Rightarrow> int \<Rightarrow> error + int" where
  "drop_loop s piece x y =
     (case can_place s piece (x + 1) y of
        Inl e \<Rightarrow> Inl e
      | Inr ok \<Rightarrow> if ok then drop_loop s piece (x + 1) y else Inr x)"
  by pat_completeness auto
termination
proof (relation "measure (\<lambda>(s, piece, x, y). nat (int BOARD_HEIGHT - x))")
  show "wf (measure (\<lambda>(s, piece, x, y). nat (int BOARD_HEIGHT - x)))"
    by simp
next
  fix s :: TetrisSolver and piece :: ndarray and x y :: int and ok :: bool
  assume cp: "can_place s piece (x + 1) y = Inr ok" and ok: "ok"
  have "x + 1 + int (fst (shape piece)) \<le> int BOARD_HEIGHT"
    using cp ok by (auto simp: can_place_def Let_def split: prod.splits if_splits)
  then have "x < int BOARD_HEIGHT"
    by linarith
  then show "((s, piece, x + 1, y), (s, piece, x, y))
               \<in> measure (\<lambda>(s, piece, x, y). nat (int BOARD_HEIGHT - x))"
    by simp
qed

declare drop_loop.simps [simp del]

text \<open>
  The body of the inner loop of \<^verbatim>\<open>best_move\<close> for one column \<open>y\<close>: the entry test
  at row 0 (\<^verbatim>\<open>continue\<close> keeps the incumbent), the drop, the copy of the board, the
  speculative \<^verbatim>\<open>place_piece\<close>, the evaluation, the restoration of the board from the
  copy, and the comparison. \<^verbatim>\<open>self.board.copy()\<close> is a fresh array, so the writes of
  \<^verbatim>\<open>place_piece\<close> do not reach it: the copy is the value of the board before them.
\<close>

definition best_move_column :: "TetrisSolver \<Rightarrow> ndarray \<Rightarrow> nat \<Rightarrow> int \<Rightarrow> best \<Rightarrow> error + (best \<times> TetrisSolver)" where
  "best_move_column s piece r_idx y bst =
     (case can_place s piece 0 y of
        Inl e \<Rightarrow> Inl e
      | Inr ok \<Rightarrow>
          if \<not> ok then Inr (bst, s)
          else
            (case drop_loop s piece 0 y of
               Inl e \<Rightarrow> Inl e
             | Inr x \<Rightarrow>
                 (let backup_board = board s in
                  case place_piece s piece x y of
                    Inl e \<Rightarrow> Inl e
                  | Inr (_, s1) \<Rightarrow>
                      (case evaluate_board s1 of
                         Inl e \<Rightarrow> Inl e
                       | Inr sc \<Rightarrow>
                           (let s2 = s1\<lparr>board := backup_board\<rparr> in
                            if score_gt sc (snd bst)
                            then Inr ((Some (x, y, r_idx), Fin sc), s2)
                            else Inr (bst, s2))))))"

fun best_move_columns :: "TetrisSolver \<Rightarrow> ndarray \<Rightarrow> nat \<Rightarrow> int list \<Rightarrow> best \<Rightarrow> error + (best \<times> TetrisSolver)" where
  "best_move_columns s piece r_idx [] bst = Inr (bst, s)"
| "best_move_columns s piece r_idx (y # ys) bst =
     (case best_move_column s piece r_idx y bst of
        Inl e \<Rightarrow> Inl e
      | Inr (bst', s') \<Rightarrow> best_move_columns s' piece r_idx ys bst')"

text \<open>\<^verbatim>\<open>range(0, BOARD_WIDTH - piece_w + 1)\<close>, empty when the bound is not positive.\<close>

definition column_range :: "ndarray \<Rightarrow> int list" where
  "column_range piece =
     map int [0 ..< nat (int BOARD_WIDTH - int (snd (shape piece)) + 1)]"

fun best_move_rotations :: "TetrisSolver \<Rightarrow> (nat \<times> ndarray) list \<Rightarrow> best \<Rightarrow> error + (best \<times> TetrisSolver)" where
  "best_move_rotations s [] bst = Inr (bst, s)"
| "best_move_rotations s ((r_idx, piece) # rest) bst =
     (case best_move_columns s piece r_idx (column_range piece) bst of
        Inl e \<Rightarrow> Inl e
      | Inr (bst', s') \<Rightarrow> best_move_rotations s' rest bst')"

text \<open>
  \<^verbatim>\<open>best_move\<close> returns the pair \<^verbatim>\<open>(best_move, best_score)\<close>; the model returns it
  together with the solver state after the call.
\<close>

definition best_move :: "TetrisSolver \<Rightarrow> ndarray list \<Rightarrow> error + (best \<times> TetrisSolver)" where
  "best_move s rotations = best_move_rotations s (enumerate 0 rotations) (None, NegInf)"

section \<open>Reference definitions\<close>

text \<open>
  The board of a solver is created 20 rows by 10 columns and every method keeps that
  shape. A grid cell is occupied when it holds 1 and empty when it holds 0.
\<close>

definition board_shape_ok :: "ndarray \<Rightarrow> bool" where
  "board_shape_ok b =
     (length b = BOARD_HEIGHT \<and> list_all (\<lambda>row. length row = BOARD_WIDTH) b)"

subsection \<open>Rotation lists\<close>

text \<open>Dropping exact duplicates from a list, keeping the first occurrence of each element.\<close>

fun drop_duplicates :: "'a list \<Rightarrow> 'a list" where
  "drop_duplicates [] = []"
| "drop_duplicates (x # xs) = x # drop_duplicates (filter (\<lambda>y. y \<noteq> x) xs)"

subsection \<open>Placements\<close>

text \<open>The index pairs \<open>(i, j)\<close> of the cells of a piece, row by row.\<close>

definition piece_cells :: "ndarray \<Rightarrow> (nat \<times> nat) list" where
  "piece_cells piece = List.product [0..<fst (shape piece)] [0..<snd (shape piece)]"

text \<open>
  A placement at \<open>(x, y)\<close> exceeds the bounds when the box of the piece does not lie
  within the rows \<open>[0, H)\<close> and the columns \<open>[0, W)\<close>; it overlaps when an occupied
  cell of the piece lies on an occupied cell of the grid. \<open>occupied_cell_outside\<close>
  is the cell-wise reading of the bounds: some occupied cell of the piece lies outside
  the grid.
\<close>

definition exceeds_bounds :: "ndarray \<Rightarrow> int \<Rightarrow> int \<Rightarrow> bool" where
  "exceeds_bounds piece x y =
     (y < 0 \<or> y + int (snd (shape piece)) > int BOARD_WIDTH
      \<or> x < 0 \<or> x + int (fst (shape piece)) > int BOARD_HEIGHT)"

definition overlaps :: "ndarray \<Rightarrow> ndarray \<Rightarrow> int \<Rightarrow> int \<Rightarrow> bool" where
  "overlaps b piece x y =
     list_ex (\<lambda>(i, j). piece ! i ! j = 1 \<and> b ! nat (x + int i) ! nat (y + int j) = 1)
       (piece_cells piece)"

definition occupied_cell_outside :: "ndarray \<Rightarrow> int \<Rightarrow> int \<Rightarrow> bool" where
  "occupied_cell_outside piece x y =
     list_ex (\<lambda>(i, j). piece ! i ! j = 1
                \<and> \<not> (0 \<le> x + int i \<and> x + int i < int BOARD_HEIGHT
                     \<and> 0 \<le> y + int j \<and> y + int j < int BOARD_WIDTH))
       (piece_cells piece)"

text \<open>
  The grid cell \<open>(r, c)\<close> corresponds to the occupied cell \<open>(i, j)\<close> of a piece
  placed at \<open>(x, y)\<close> when \<open>r = x + i\<close> and \<open>c = y + j\<close>. \<open>overlay\<close> is the
  grid with exactly those cells set to occupied.
\<close>

definition covered :: "ndarray \<Rightarrow> int \<Rightarrow> int \<Rightarrow> nat \<Rightarrow> nat \<Rightarrow> bool" where
  "covered piece x y r c =
     list_ex (\<lambda>(i, j). piece ! i ! j = 1 \<and> int r = x + int i \<and> int c = y + int j)
       (piece_cells piece)"

definition overlay :: "ndarray \<Rightarrow> ndarray \<Rightarrow> int \<Rightarrow> int \<Rightarrow> ndarray" where
  "overlay b piece x y =
     map (\<lambda>r. map (\<lambda>c. if covered piece x y r c then 1 else b ! r ! c) [0..<BOARD_WIDTH])
       [0..<BOARD_HEIGHT]"

text \<open>
  For the proofs: the cells that the writes of \<open>place_piece_loop\<close> reach for the
  piece cells of a list, the indices taken as numpy takes them.
\<close>

definition occupied_targets :: "ndarray \<Rightarrow> int \<Rightarrow> int \<Rightarrow> (nat \<times> nat) list \<Rightarrow> nat \<Rightarrow> nat \<Rightarrow> bool" where
  "occupied_targets piece x y ijs r c =
     list_ex (\<lambda>(i, j). piece ! i ! j = 1
                \<and> np_index BOARD_HEIGHT (x + int i) = Inr r
                \<and> np_index BOARD_WIDTH (y + int j) = Inr c) ijs"

subsection \<open>Line clearing\<close>

text \<open>
  A row is full when every cell of it is occupied. \<open>compacted\<close> is the grid after the
  full rows are removed: as many empty rows as there were full rows, on top of the rows
  that were not full, in their order. The award for \<open>n\<close> cleared rows at a level is
  \<open>base_points n * level\<close> for \<open>1 \<le> n \<le> 4\<close> and \<open>1000 * level * n / 4\<close>,
  the division truncating, otherwise.
\<close>

definition is_full :: "int list \<Rightarrow> bool" where
  "is_full row = list_all (\<lambda>c. c = 1) row"

definition full_count :: "ndarray \<Rightarrow> nat" where
  "full_count b = length (filter is_full b)"

definition compacted :: "ndarray \<Rightarrow> ndarray" where
  "compacted b =
     replicate (full_count b) (replicate BOARD_WIDTH 0) @ filter (\<lambda>row. \<not> is_full row) b"

definition occupied_count :: "ndarray \<Rightarrow> nat" where
  "occupied_count b = sum_list (map (\<lambda>row. length (filter (\<lambda>c. c = 1) row)) b)"

definition base_points :: "int \<Rightarrow> int" where
  "base_points n =
     (if n = 1 then 100 else if n = 2 then 300 else if n = 3 then 500
      else if n = 4 then 800 else 0)"

definition trunc_div :: "int \<Rightarrow> int \<Rightarrow> int" where
  "trunc_div a b = sgn a * sgn b * (\<bar>a\<bar> div \<bar>b\<bar>)"

definition line_clear_award :: "int \<Rightarrow> int \<Rightarrow> int" where
  "line_clear_award n lvl =
     (if 1 \<le> n \<and> n \<le> 4 then base_points n * lvl else trunc_div (1000 * lvl * n) 4)"

text \<open>
  A counter fits when it lies in the range \<open>[-2^63, 2^63)\<close> of the 64-bit signed
  integers. The counters of a clear of \<open>n\<close> rows fit when the counters before, the new
  \<open>lines_cleared\<close>, the product of the award (\<open>base_points n * level\<close>, or
  \<open>1000 * level * n\<close> for more than four rows) and the new score all do: the 64-bit
  arithmetic of the clear does not overflow.
\<close>

definition in_int64 :: "int \<Rightarrow> bool" where
  "in_int64 v = (- (2 ^ 63) \<le> v \<and> v < 2 ^ 63)"

definition counters_fit :: "TetrisSolver \<Rightarrow> int \<Rightarrow> bool" where
  "counters_fit s n =
     (let lc = lines_cleared s + n;
          lvl = max 1 (lc div 10 + 1)
      in in_int64 (lines_cleared s) \<and> in_int64 (score s) \<and> in_int64 lc
         \<and> in_int64 (if 1 \<le> n \<and> n \<le> 4 then base_points n * lvl else 1000 * lvl * n)
         \<and> in_int64 (score s + line_clear_award n lvl))"

text \<open>For the proofs: the solver after a clear of at least one row, as the code computes it.\<close>

definition after_clear :: "TetrisSolver \<Rightarrow> TetrisSolver" where
  "after_clear s =
     (let n = int (full_count (board s));
          lc = wrap64 (lines_cleared s + n);
          lvl = max 1 (wrap64 (lc div 10 + 1));
          points = (if 1 \<le> n \<and> n \<le> 4 then wrap64 (base_points n * lvl)
                    else wrap64 (wrap64 (1000 * lvl) * n) div 4)
      in s\<lparr>board := compacted (board s), lines_cleared := lc, level := lvl,
           score := wrap64 (score s + points)\<rparr>)"

subsection \<open>The evaluator\<close>

text \<open>
  The features of a grid. The height of a column is \<open>H\<close> minus the row index of its
  topmost occupied cell, or 0 for a column without occupied cell. The holes of a column
  are the empty cells strictly below its topmost occupied cell. The bumpiness is the sum
  of the absolute differences of the heights of adjacent columns, the aggregate height
  the sum of the heights. The factor \<open>4 - f\<close> of the score is an integer, negative when
  more than four rows are full.
\<close>

definition cell_occupied :: "ndarray \<Rightarrow> nat \<Rightarrow> nat \<Rightarrow> bool" where
  "cell_occupied b r c = (b ! r ! c = 1)"

definition cell_empty :: "ndarray \<Rightarrow> nat \<Rightarrow> nat \<Rightarrow> bool" where
  "cell_empty b r c = (b ! r ! c = 0)"

definition topmost :: "ndarray \<Rightarrow> nat \<Rightarrow> nat option" where
  "topmost b c = find (\<lambda>r. cell_occupied b r c) [0..<BOARD_HEIGHT]"

definition col_height :: "ndarray \<Rightarrow> nat \<Rightarrow> int" where
  "col_height b c = (case topmost b c of None \<Rightarrow> 0 | Some t \<Rightarrow> int BOARD_HEIGHT - int t)"

definition col_holes :: "ndarray \<Rightarrow> nat \<Rightarrow> nat" where
  "col_holes b c =
     (case topmost b c of
        None \<Rightarrow> 0
      | Some t \<Rightarrow> length (filter (\<lambda>r. cell_empty b r c) [Suc t..<BOARD_HEIGHT]))"

definition total_holes :: "ndarray \<Rightarrow> int" where
  "total_holes b = int (\<Sum>c = 0..<BOARD_WIDTH. col_holes b c)"

definition bumpiness :: "ndarray \<Rightarrow> int" where
  "bumpiness b = (\<Sum>i = 0..<BOARD_WIDTH - 1. \<bar>col_height b i - col_height b (i + 1)\<bar>)"

definition aggregate_height :: "ndarray \<Rightarrow> int" where
  "aggregate_height b = (\<Sum>c = 0..<BOARD_WIDTH. col_height b c)"

definition reference_score :: "ndarray \<Rightarrow> int" where
  "reference_score b =
     (let f = int (full_count b) in
      f * 500 + (4 - f) * (- 50) + total_holes b * (- 50) + bumpiness b * (- 10)
      + aggregate_height b * (- 1))"


subsection \<open>The search\<close>

text \<open>
  The resting row of a piece in column \<open>y\<close> is the largest \<open>x\<close> reached from 0 in
  steps of one while \<open>can_place\<close> holds at the next row. The candidates of a search
  are, for each rotation in the order of the list and each column \<open>y\<close> from 0 to
  \<open>W - width\<close> in ascending order, the placement at the resting row with the score
  of the resulting grid, provided \<open>can_place\<close> holds at row 0; a column where it does
  not hold gives no candidate. The first maximum of a list of candidates is the earliest
  candidate whose score is the largest; there is none for the empty list.
\<close>

definition rest_row :: "TetrisSolver \<Rightarrow> ndarray \<Rightarrow> int \<Rightarrow> int" where
  "rest_row s piece y =
     int (length (takeWhile (\<lambda>x. can_place s piece (int x) y = Inr True)
                    [1..<Suc BOARD_HEIGHT]))"

definition column_candidate :: "TetrisSolver \<Rightarrow> nat \<Rightarrow> ndarray \<Rightarrow> int \<Rightarrow> (move \<times> int) list" where
  "column_candidate s r piece y =
     (if can_place s piece 0 y = Inr True then
        (let x = rest_row s piece y in
         [((x, y, r), reference_score (overlay (board s) piece x y))])
      else [])"

definition candidates :: "TetrisSolver \<Rightarrow> ndarray list \<Rightarrow> (move \<times> int) list" where
  "candidates s rotations =
     concat (map (\<lambda>(r, piece).
                concat (map (column_candidate s r piece)
                          [0..int BOARD_WIDTH - int (snd (shape piece))]))
              (enumerate 0 rotations))"

definition first_max :: "(move \<times> int) list \<Rightarrow> best" where
  "first_max cs =
     (if cs = [] then (None, NegInf)
      else
        (case find (\<lambda>c. snd c = Max (set (map snd cs))) cs of
           None \<Rightarrow> (None, NegInf)
         | Some (mv, sc) \<Rightarrow> (Some mv, Fin sc)))"

text \<open>The comparison step of the search: only a strictly greater score replaces the incumbent.\<close>

definition better :: "best \<Rightarrow> move \<times> int \<Rightarrow> best" where
  "better bst c = (if score_gt (snd c) (snd bst) then (Some (fst c), Fin (snd c)) else bst)"


section \<open>Properties of the rotation lists\<close>

lemma set_drop_duplicates: "set (drop_duplicates xs) = set xs"
  by (induction xs rule: drop_duplicates.induct) auto

lemma distinct_drop_duplicates: "distinct (drop_duplicates xs)"
  by (induction xs rule: drop_duplicates.induct) (auto simp: set_drop_duplicates)

lemma get_rotations_loop_eq:
  "get_rotations_loop piece ks acc =
     acc @ drop_duplicates (filter (\<lambda>r. r \<notin> set acc) (map (rot90 piece) ks))"
proof (induction ks arbitrary: acc)
  case Nil
  show ?case by simp
next
  case (Cons k ks)
  have eq: "(\<lambda>r. r \<noteq> rot90 piece k \<and> r \<notin> set acc) = (\<lambda>r. r \<notin> set acc \<and> r \<noteq> rot90 piece k)"
    by auto
  show ?case
    by (simp add: Cons.IH list_ex_iff Let_def eq)
qed

section \<open>Properties of the operations\<close>

subsection \<open>Array access on a board of the right shape\<close>

lemma np_index_in_range: "0 \<le> i \<Longrightarrow> i < int n \<Longrightarrow> np_index n i = Inr (nat i)"
  by (simp add: np_index_def)

lemma np_index_Inr_less: "np_index n i = Inr k \<Longrightarrow> k < n"
  by (auto simp: np_index_def split: if_splits)

lemma board_shape_ok_row: "board_shape_ok b \<Longrightarrow> r < BOARD_HEIGHT \<Longrightarrow> length (b ! r) = BOARD_WIDTH"
  by (simp add: board_shape_ok_def list_all_length)

lemma array_get_shape:
  assumes "board_shape_ok b"
  shows "array_get b r c =
           (case np_index BOARD_HEIGHT r of Inl e \<Rightarrow> Inl e
            | Inr r' \<Rightarrow> (case np_index BOARD_WIDTH c of Inl e \<Rightarrow> Inl e
                         | Inr c' \<Rightarrow> Inr (b ! r' ! c')))"
proof (cases "np_index BOARD_HEIGHT r")
  case (Inl e)
  with assms show ?thesis by (simp add: array_get_def board_shape_ok_def)
next
  case (Inr r')
  then have "r' < BOARD_HEIGHT" by (rule np_index_Inr_less)
  with assms have "length (b ! r') = BOARD_WIDTH" by (rule board_shape_ok_row)
  with Inr assms show ?thesis by (simp add: array_get_def board_shape_ok_def)
qed

lemma array_set_shape:
  assumes "board_shape_ok b"
  shows "array_set b r c v =
           (case np_index BOARD_HEIGHT r of Inl e \<Rightarrow> Inl e
            | Inr r' \<Rightarrow> (case np_index BOARD_WIDTH c of Inl e \<Rightarrow> Inl e
                         | Inr c' \<Rightarrow> Inr (b[r' := (b ! r')[c' := v]])))"
proof (cases "np_index BOARD_HEIGHT r")
  case (Inl e)
  with assms show ?thesis by (simp add: array_set_def board_shape_ok_def)
next
  case (Inr r')
  then have "r' < BOARD_HEIGHT" by (rule np_index_Inr_less)
  with assms have "length (b ! r') = BOARD_WIDTH" by (rule board_shape_ok_row)
  with Inr assms show ?thesis by (simp add: array_set_def board_shape_ok_def)
qed

lemma board_shape_ok_update:
  assumes "board_shape_ok b"
  shows "board_shape_ok (b[r := (b ! r)[c := v]])"
proof (cases "r < length b")
  case True
  with assms show ?thesis
    by (auto simp: board_shape_ok_def list_all_length nth_list_update)
next
  case False
  with assms show ?thesis
    by (simp add: list_update_beyond not_less)
qed

subsection \<open>can_place and place_piece\<close>

lemma can_place_loop_in_range:
  assumes "board_shape_ok b"
    and "\<forall>(i, j) \<in> set ijs. 0 \<le> x + int i \<and> x + int i < int BOARD_HEIGHT
            \<and> 0 \<le> y + int j \<and> y + int j < int BOARD_WIDTH"
  shows "can_place_loop b piece x y ijs =
           Inr (\<not> list_ex (\<lambda>(i, j). piece ! i ! j = 1
                   \<and> b ! nat (x + int i) ! nat (y + int j) = 1) ijs)"
  using assms(2)
proof (induction ijs)
  case Nil
  show ?case by simp
next
  case (Cons ij ijs)
  obtain i j where ij: "ij = (i, j)" by (cases ij)
  from Cons.prems ij have r: "np_index BOARD_HEIGHT (x + int i) = Inr (nat (x + int i))"
    and c: "np_index BOARD_WIDTH (y + int j) = Inr (nat (y + int j))"
    by (auto intro: np_index_in_range)
  from Cons.prems have "\<forall>(i, j) \<in> set ijs. 0 \<le> x + int i \<and> x + int i < int BOARD_HEIGHT
            \<and> 0 \<le> y + int j \<and> y + int j < int BOARD_WIDTH"
    by simp
  then have IH: "can_place_loop b piece x y ijs =
           Inr (\<not> list_ex (\<lambda>(i, j). piece ! i ! j = 1
                   \<and> b ! nat (x + int i) ! nat (y + int j) = 1) ijs)"
    by (rule Cons.IH)
  show ?case
    by (simp add: ij array_get_shape [OF assms(1)] r c IH)
qed

lemma can_place_loop_True:
  assumes "can_place_loop b piece x y ijs = Inr True"
    and "(i, j) \<in> set ijs" and "piece ! i ! j = 1"
  shows "\<exists>v. array_get b (x + int i) (y + int j) = Inr v \<and> v \<noteq> 1"
  using assms
  by (induction ijs) (auto split: if_splits sum.splits)

lemma place_piece_loop_shape:
  assumes "board_shape_ok b"
    and "\<forall>(i, j) \<in> set ijs. piece ! i ! j = 1 \<longrightarrow>
           (\<exists>r c. np_index BOARD_HEIGHT (x + int i) = Inr r
                 \<and> np_index BOARD_WIDTH (y + int j) = Inr c)"
  shows "\<exists>b'. place_piece_loop b piece x y ijs = Inr b' \<and> board_shape_ok b'
           \<and> (\<forall>r < BOARD_HEIGHT. \<forall>c < BOARD_WIDTH.
                 b' ! r ! c = (if occupied_targets piece x y ijs r c then 1 else b ! r ! c))"
  using assms
proof (induction ijs arbitrary: b)
  case Nil
  then show ?case by (simp add: occupied_targets_def)
next
  case (Cons ij ijs)
  obtain i j where ij: "ij = (i, j)" by (cases ij)
  from Cons.prems(2) have rest: "\<forall>(i, j) \<in> set ijs. piece ! i ! j = 1 \<longrightarrow>
           (\<exists>r c. np_index BOARD_HEIGHT (x + int i) = Inr r
                 \<and> np_index BOARD_WIDTH (y + int j) = Inr c)"
    by simp
  show ?case
  proof (cases "piece ! i ! j = 1")
    case False
    from Cons.IH [OF Cons.prems(1) rest] False show ?thesis
      by (simp add: ij occupied_targets_def)
  next
    case True
    with Cons.prems(2) ij obtain r0 c0 where
      r0: "np_index BOARD_HEIGHT (x + int i) = Inr r0" and
      c0: "np_index BOARD_WIDTH (y + int j) = Inr c0"
      by auto
    have r0l: "r0 < BOARD_HEIGHT" and c0l: "c0 < BOARD_WIDTH"
      using r0 c0 by (auto dest: np_index_Inr_less)
    let ?b1 = "b[r0 := (b ! r0)[c0 := 1]]"
    have set1: "array_set b (x + int i) (y + int j) 1 = Inr ?b1"
      by (simp add: array_set_shape [OF Cons.prems(1)] r0 c0)
    have ok1: "board_shape_ok ?b1"
      using Cons.prems(1) by (rule board_shape_ok_update)
    from Cons.IH [OF ok1 rest] obtain b' where
      b': "place_piece_loop ?b1 piece x y ijs = Inr b'" and okb': "board_shape_ok b'" and
      cells: "\<forall>r < BOARD_HEIGHT. \<forall>c < BOARD_WIDTH.
                 b' ! r ! c = (if occupied_targets piece x y ijs r c then 1 else ?b1 ! r ! c)"
      by blast
    have lb: "length b = BOARD_HEIGHT"
      using Cons.prems(1) by (simp add: board_shape_ok_def)
    have b1: "?b1 ! r ! c = (if r = r0 \<and> c = c0 then 1 else b ! r ! c)"
      if "r < BOARD_HEIGHT" "c < BOARD_WIDTH" for r c
      using that lb r0l c0l board_shape_ok_row [OF Cons.prems(1), of r]
      by (auto simp: nth_list_update)
    have "b' ! r ! c = (if occupied_targets piece x y (ij # ijs) r c then 1 else b ! r ! c)"
      if "r < BOARD_HEIGHT" "c < BOARD_WIDTH" for r c
      using cells that b1 [OF that] True r0 c0
      by (auto simp: ij occupied_targets_def)
    with b' okb' set1 True show ?thesis
      by (simp add: ij)
  qed
qed

lemma can_place_fits:
  assumes ok: "board_shape_ok (board s)" and x0: "0 \<le> x"
  shows "can_place s piece x y
           = Inr (\<not> (exceeds_bounds piece x y \<or> overlaps (board s) piece x y))"
proof (cases "exceeds_bounds piece x y")
  case True
  with x0 show ?thesis
    by (auto simp: can_place_def exceeds_bounds_def split: prod.splits)
next
  case False
  then have bnd: "0 \<le> y" "y + int (snd (shape piece)) \<le> int BOARD_WIDTH"
    "x + int (fst (shape piece)) \<le> int BOARD_HEIGHT"
    by (auto simp: exceeds_bounds_def)
  have rng: "\<forall>(i, j) \<in> set (piece_cells piece).
            0 \<le> x + int i \<and> x + int i < int BOARD_HEIGHT
            \<and> 0 \<le> y + int j \<and> y + int j < int BOARD_WIDTH"
    using bnd x0 by (auto simp: piece_cells_def)
  have "can_place s piece x y = can_place_loop (board s) piece x y (piece_cells piece)"
    using bnd by (auto simp: can_place_def piece_cells_def split: prod.splits)
  also have "\<dots> = Inr (\<not> overlaps (board s) piece x y)"
    unfolding overlaps_def by (rule can_place_loop_in_range [OF ok rng])
  finally show ?thesis
    using False by simp
qed

lemma can_place_True_loop:
  assumes "can_place s piece x y = Inr True"
  shows "can_place_loop (board s) piece x y (piece_cells piece) = Inr True"
  using assms
  by (auto simp: can_place_def piece_cells_def split: prod.splits if_splits)

lemma place_piece_False:
  "can_place s piece x y = Inr False \<Longrightarrow> place_piece s piece x y = Inr (False, s)"
  by (simp add: place_piece_def)

lemma board_shape_ok_nth_eq:
  assumes "board_shape_ok a" and "board_shape_ok b"
    and "\<And>r c. r < BOARD_HEIGHT \<Longrightarrow> c < BOARD_WIDTH \<Longrightarrow> a ! r ! c = b ! r ! c"
  shows "a = b"
proof (rule nth_equalityI)
  show "length a = length b"
    using assms(1,2) by (simp add: board_shape_ok_def)
next
  fix r assume "r < length a"
  then have r: "r < BOARD_HEIGHT"
    using assms(1) by (simp add: board_shape_ok_def)
  show "a ! r = b ! r"
  proof (rule nth_equalityI)
    show "length (a ! r) = length (b ! r)"
      using board_shape_ok_row [OF assms(1) r] board_shape_ok_row [OF assms(2) r] by simp
  next
    fix c assume "c < length (a ! r)"
    then have "c < BOARD_WIDTH"
      using board_shape_ok_row [OF assms(1) r] by simp
    with r show "a ! r ! c = b ! r ! c"
      by (rule assms(3))
  qed
qed

lemma board_shape_ok_overlay: "board_shape_ok (overlay b piece x y)"
  by (simp add: board_shape_ok_def overlay_def list_all_length)

lemma can_place_True_bounds:
  assumes "can_place s piece x y = Inr True"
  shows "0 \<le> y" and "y + int (snd (shape piece)) \<le> int BOARD_WIDTH"
    and "x + int (fst (shape piece)) \<le> int BOARD_HEIGHT"
  using assms by (auto simp: can_place_def split: prod.splits if_splits)

lemma place_piece_True_targets:
  assumes ok: "board_shape_ok (board s)" and cp: "can_place s piece x y = Inr True"
  shows "\<exists>b'. place_piece s piece x y = Inr (True, s\<lparr>board := b'\<rparr>) \<and> board_shape_ok b'
           \<and> (\<forall>r < BOARD_HEIGHT. \<forall>c < BOARD_WIDTH.
                 b' ! r ! c = (if occupied_targets piece x y (piece_cells piece) r c then 1
                               else board s ! r ! c))"
proof -
  have valid: "\<forall>(i, j) \<in> set (piece_cells piece). piece ! i ! j = 1 \<longrightarrow>
           (\<exists>r c. np_index BOARD_HEIGHT (x + int i) = Inr r
                 \<and> np_index BOARD_WIDTH (y + int j) = Inr c)"
  proof clarify
    fix i j assume "(i, j) \<in> set (piece_cells piece)" "piece ! i ! j = 1"
    with can_place_loop_True [OF can_place_True_loop [OF cp]]
    obtain v where "array_get (board s) (x + int i) (y + int j) = Inr v"
      by blast
    then show "\<exists>r c. np_index BOARD_HEIGHT (x + int i) = Inr r
                 \<and> np_index BOARD_WIDTH (y + int j) = Inr c"
      by (auto simp: array_get_shape [OF ok] split: sum.splits)
  qed
  from place_piece_loop_shape [OF ok valid] obtain b' where
    b': "place_piece_loop (board s) piece x y (piece_cells piece) = Inr b'" and
    okb': "board_shape_ok b'" and
    cells: "\<forall>r < BOARD_HEIGHT. \<forall>c < BOARD_WIDTH.
              b' ! r ! c = (if occupied_targets piece x y (piece_cells piece) r c then 1
                            else board s ! r ! c)"
    by blast
  from b' cp have "place_piece s piece x y = Inr (True, s\<lparr>board := b'\<rparr>)"
    by (simp add: place_piece_def piece_cells_def case_prod_beta)
  with okb' cells show ?thesis
    by blast
qed

text \<open>From row 0 on, the cells written are the cells that correspond to the piece.\<close>

lemma occupied_targets_covered:
  assumes "0 \<le> x" and "0 \<le> y"
    and "y + int (snd (shape piece)) \<le> int BOARD_WIDTH"
    and "x + int (fst (shape piece)) \<le> int BOARD_HEIGHT"
  shows "occupied_targets piece x y (piece_cells piece) r c = covered piece x y r c"
proof -
  have "(np_index BOARD_HEIGHT (x + int i) = Inr r \<and> np_index BOARD_WIDTH (y + int j) = Inr c)
          = (int r = x + int i \<and> int c = y + int j)"
    if "(i, j) \<in> set (piece_cells piece)" for i j
  proof -
    from that have "i < fst (shape piece)" "j < snd (shape piece)"
      by (auto simp: piece_cells_def)
    with assms have "0 \<le> x + int i" "x + int i < int BOARD_HEIGHT"
      "0 \<le> y + int j" "y + int j < int BOARD_WIDTH"
      by simp_all
    then show ?thesis
      by (auto simp: np_index_def)
  qed
  then show ?thesis
    unfolding occupied_targets_def covered_def list_ex_iff by blast
qed

lemma place_piece_True:
  assumes ok: "board_shape_ok (board s)" and x0: "0 \<le> x"
    and cp: "can_place s piece x y = Inr True"
  shows "place_piece s piece x y = Inr (True, s\<lparr>board := overlay (board s) piece x y\<rparr>)"
proof -
  from place_piece_True_targets [OF ok cp] obtain b' where
    b': "place_piece s piece x y = Inr (True, s\<lparr>board := b'\<rparr>)" and
    okb': "board_shape_ok b'" and
    cells: "\<forall>r < BOARD_HEIGHT. \<forall>c < BOARD_WIDTH.
              b' ! r ! c = (if occupied_targets piece x y (piece_cells piece) r c then 1
                            else board s ! r ! c)"
    by blast
  note tc = occupied_targets_covered [OF x0 can_place_True_bounds [OF cp]]
  have "b' = overlay (board s) piece x y"
  proof (rule board_shape_ok_nth_eq [OF okb' board_shape_ok_overlay])
    fix r c assume "r < BOARD_HEIGHT" "c < BOARD_WIDTH"
    with cells show "b' ! r ! c = overlay (board s) piece x y ! r ! c"
      by (simp add: overlay_def tc)
  qed
  with b' show ?thesis
    by simp
qed


subsection \<open>clear_lines\<close>

lemma count_true_full_rows: "count_true (full_rows b) = int (full_count b)"
  by (simp add: count_true_def full_rows_def full_count_def is_full_def [abs_def] filter_map o_def)

lemma full_rows_nth: "m < length b \<Longrightarrow> full_rows b ! m = is_full (b ! m)"
  by (simp add: full_rows_def is_full_def)

lemma clear_lines_loop_eq:
  assumes "m \<le> length b" and "j \<le> length nb"
    and "length (filter (\<lambda>row. \<not> is_full row) (take m b)) \<le> j"
  shows "clear_lines_loop b (full_rows b) (rev [0..<m]) nb (int j - 1)
           = Inr (take (j - length (filter (\<lambda>row. \<not> is_full row) (take m b))) nb
                    @ filter (\<lambda>row. \<not> is_full row) (take m b) @ drop j nb,
                  int (j - length (filter (\<lambda>row. \<not> is_full row) (take m b))) - 1)"
  using assms
proof (induction m arbitrary: nb j)
  case 0
  then show ?case by simp
next
  case (Suc m)
  have m: "m < length b" "m \<le> length b"
    using Suc.prems(1) by simp_all
  have tk: "take (Suc m) b = take m b @ [b ! m]"
    using m by (simp add: take_Suc_conv_app_nth)
  have lf: "m < length (full_rows b)"
    using m by (simp add: full_rows_def)
  show ?case
  proof (cases "is_full (b ! m)")
    case True
    have c: "length (filter (\<lambda>row. \<not> is_full row) (take m b)) \<le> j"
      using Suc.prems(3) True by (simp add: tk)
    show ?thesis
      using Suc.IH [OF m(2) Suc.prems(2) c] True lf
      by (simp add: tk full_rows_nth [OF m(1)])
  next
    case False
    let ?cnt = "length (filter (\<lambda>row. \<not> is_full row) (take m b))"
    have c: "Suc ?cnt \<le> j"
      using Suc.prems(3) False by (simp add: tk)
    then obtain j' where j': "j = Suc j'"
      by (cases j) auto
    have j'l: "j' < length nb" "j' \<le> length (nb[j' := b ! m])" "?cnt \<le> j'"
      using Suc.prems(2) c j' by simp_all
    have idx: "np_index (length nb) (int j') = Inr j'"
      using j'l by (simp add: np_index_def)
    have tk2: "take (j' - ?cnt) (nb[j' := b ! m]) = take (j' - ?cnt) nb"
      by simp
    have dr: "drop j' (nb[j' := b ! m]) = b ! m # drop (Suc j') nb"
      using j'l(1) by (simp add: upd_conv_take_nth_drop)
    show ?thesis
      using Suc.IH [OF m(2) j'l(2) j'l(3)] False lf m(1)
      by (simp add: tk full_rows_nth [OF m(1)] idx tk2 dr j')
  qed
qed

lemma zeros_like_shape:
  "board_shape_ok b \<Longrightarrow> zeros_like b = replicate BOARD_HEIGHT (replicate BOARD_WIDTH 0)"
  by (auto simp: board_shape_ok_def zeros_like_def list_all_length map_replicate_const
        intro!: nth_equalityI)

lemma full_count_le: "full_count b \<le> length b"
  by (simp add: full_count_def)

lemma nonfull_count: "length (filter (\<lambda>row. \<not> is_full row) b) = length b - full_count b"
  using sum_length_filter_compl [of is_full b] by (simp add: full_count_def)

lemma clear_lines_loop_board:
  assumes ok: "board_shape_ok b"
  shows "\<exists>k. clear_lines_loop b (full_rows b) (rev [0..<BOARD_HEIGHT]) (zeros_like b)
               (int BOARD_HEIGHT - 1) = Inr (compacted b, k)"
proof -
  have lb: "length b = BOARD_HEIGHT"
    using ok by (simp add: board_shape_ok_def)
  have z: "zeros_like b = replicate BOARD_HEIGHT (replicate BOARD_WIDTH 0)"
    using ok by (rule zeros_like_shape)
  have a1: "BOARD_HEIGHT \<le> length b" and a2: "BOARD_HEIGHT \<le> length (zeros_like b)"
    and a3: "length (filter (\<lambda>row. \<not> is_full row) (take BOARD_HEIGHT b)) \<le> BOARD_HEIGHT"
    using lb z by (simp_all add: nonfull_count)
  have d: "BOARD_HEIGHT - (BOARD_HEIGHT - full_count b) = full_count b"
    using full_count_le [of b] lb by simp
  have mn: "min (full_count b) BOARD_HEIGHT = full_count b"
    using full_count_le [of b] lb by simp
  show ?thesis
    using clear_lines_loop_eq [OF a1 a2 a3] lb
    by (simp add: z nonfull_count d mn compacted_def)
qed

lemma LINE_CLEAR_POINTS_base:
  assumes "1 \<le> n" and "n \<le> 4"
  shows "LINE_CLEAR_POINTS n = Some (base_points n)"
proof -
  from assms have "n = 1 \<or> n = 2 \<or> n = 3 \<or> n = 4"
    by arith
  then show ?thesis
    by (auto simp: LINE_CLEAR_POINTS_def base_points_def)
qed

lemma trunc_div_nonneg: "0 \<le> a \<Longrightarrow> trunc_div a 4 = a div 4"
  by (cases "a = 0") (simp_all add: trunc_div_def)

lemma clear_lines_eq:
  assumes ok: "board_shape_ok (board s)"
  shows "clear_lines s =
           Inr (int (full_count (board s)),
                if full_count (board s) = 0 then s else after_clear s)"
proof (cases "full_count (board s) = 0")
  case True
  then show ?thesis
    by (simp add: clear_lines_def count_true_full_rows)
next
  case False
  let ?n = "int (full_count (board s))"
  from clear_lines_loop_board [OF ok] obtain k where
    loop: "clear_lines_loop (board s) (full_rows (board s)) (rev [0..<BOARD_HEIGHT])
             (zeros_like (board s)) (int BOARD_HEIGHT - 1) = Inr (compacted (board s), k)"
    by blast
  have n1: "1 \<le> ?n"
    using False by simp
  show ?thesis
  proof (cases "?n \<le> 4")
    case True
    have pts: "LINE_CLEAR_POINTS ?n = Some (base_points ?n)"
      using n1 True by (rule LINE_CLEAR_POINTS_base)
    show ?thesis
      using False True n1 loop pts
      by (simp add: clear_lines_def count_true_full_rows Let_def after_clear_def)
  next
    case False
    show ?thesis
      using False n1 loop \<open>full_count (board s) \<noteq> 0\<close>
      by (simp add: clear_lines_def count_true_full_rows Let_def after_clear_def)
  qed
qed

text \<open>Without overflow the counters after a clear are the mathematical results.\<close>

lemma wrap64_id: "in_int64 v \<Longrightarrow> wrap64 v = v"
  by (simp add: wrap64_def in_int64_def)

lemma in_int64_level: "in_int64 lc \<Longrightarrow> in_int64 (lc div 10 + 1)"
  unfolding in_int64_def by (simp, arith)

lemma in_int64_factor:
  assumes "in_int64 (1000 * lvl * n)" and "1 \<le> lvl" and "1 \<le> n"
  shows "in_int64 (1000 * lvl)"
proof -
  have "0 \<le> 1000 * lvl"
    using assms(2) by simp
  then have "(1000 * lvl) * 1 \<le> (1000 * lvl) * n"
    using assms(3) by (intro mult_left_mono) simp_all
  with assms(1) \<open>0 \<le> 1000 * lvl\<close> show ?thesis
    by (simp add: in_int64_def)
qed

lemma after_clear_counters:
  assumes fit: "counters_fit s (int (full_count (board s)))"
    and n1: "1 \<le> full_count (board s)"
  shows "lines_cleared (after_clear s) = lines_cleared s + int (full_count (board s))"
    and "level (after_clear s) = max 1 (lines_cleared (after_clear s) div 10 + 1)"
    and "score (after_clear s)
           = score s + line_clear_award (int (full_count (board s))) (level (after_clear s))"
proof -
  let ?n = "int (full_count (board s))"
  let ?lc = "lines_cleared s + ?n"
  let ?lvl = "max 1 (?lc div 10 + 1)"
  from fit have f1: "in_int64 ?lc"
    and f2: "in_int64 (if 1 \<le> ?n \<and> ?n \<le> 4 then base_points ?n * ?lvl else 1000 * ?lvl * ?n)"
    and f3: "in_int64 (score s + line_clear_award ?n ?lvl)"
    by (simp_all add: counters_fit_def Let_def)
  have w1: "wrap64 ?lc = ?lc"
    using f1 by (rule wrap64_id)
  have w2: "wrap64 (?lc div 10 + 1) = ?lc div 10 + 1"
    using in_int64_level [OF f1] by (rule wrap64_id)
  have n1': "1 \<le> ?n"
    using n1 by simp
  have lv: "1 \<le> ?lvl"
    by simp
  show "lines_cleared (after_clear s) = lines_cleared s + ?n"
    by (simp add: after_clear_def Let_def w1)
  show "level (after_clear s) = max 1 (lines_cleared (after_clear s) div 10 + 1)"
    by (simp add: after_clear_def Let_def w1 w2)
  show "score (after_clear s) = score s + line_clear_award ?n (level (after_clear s))"
  proof (cases "?n \<le> 4")
    case True
    with f2 n1' have "wrap64 (base_points ?n * ?lvl) = base_points ?n * ?lvl"
      by (intro wrap64_id) simp
    moreover from f3 have "wrap64 (score s + line_clear_award ?n ?lvl)
                             = score s + line_clear_award ?n ?lvl"
      by (rule wrap64_id)
    ultimately show ?thesis
      using True n1'
      by (simp add: after_clear_def Let_def w1 w2 line_clear_award_def)
  next
    case False
    with f2 have p: "in_int64 (1000 * ?lvl * ?n)"
      by simp
    have a: "wrap64 (1000 * ?lvl) = 1000 * ?lvl"
      using in_int64_factor [OF p lv n1'] by (rule wrap64_id)
    have b: "wrap64 (1000 * ?lvl * ?n) = 1000 * ?lvl * ?n"
      using p by (rule wrap64_id)
    have "0 \<le> 1000 * ?lvl * ?n"
      by simp
    then have td: "trunc_div (1000 * ?lvl * ?n) 4 = (1000 * ?lvl * ?n) div 4"
      by (rule trunc_div_nonneg)
    from f3 have c: "wrap64 (score s + line_clear_award ?n ?lvl)
                       = score s + line_clear_award ?n ?lvl"
      by (rule wrap64_id)
    show ?thesis
      using False c
      by (simp add: after_clear_def Let_def w1 w2 a b td line_clear_award_def)
  qed
qed

lemma board_shape_ok_compacted:
  assumes "board_shape_ok b"
  shows "board_shape_ok (compacted b)"
  using assms full_count_le [of b]
  by (auto simp: board_shape_ok_def compacted_def nonfull_count list_all_iff)

lemma occupied_count_append: "occupied_count (a @ b) = occupied_count a + occupied_count b"
  by (simp add: occupied_count_def)

lemma occupied_count_zero_rows: "occupied_count (replicate n (replicate w 0)) = 0"
  by (induction n) (simp_all add: occupied_count_def)

lemma occupied_count_split:
  assumes "list_all (\<lambda>row. length row = w) b"
  shows "occupied_count b
           = length (filter is_full b) * w + occupied_count (filter (\<lambda>row. \<not> is_full row) b)"
  using assms
proof (induction b)
  case Nil
  show ?case by (simp add: occupied_count_def)
next
  case (Cons row b)
  have "is_full row \<Longrightarrow> filter (\<lambda>c. c = 1) row = row"
    by (simp add: is_full_def list_all_iff)
  with Cons show ?case
    by (auto simp: occupied_count_def)
qed

lemma occupied_count_compacted:
  assumes "board_shape_ok b"
  shows "occupied_count (compacted b) + full_count b * BOARD_WIDTH = occupied_count b"
proof -
  have "list_all (\<lambda>row. length row = BOARD_WIDTH) b"
    using assms by (simp add: board_shape_ok_def)
  from occupied_count_split [OF this] show ?thesis
    by (simp add: compacted_def occupied_count_append occupied_count_zero_rows full_count_def)
qed


subsection \<open>evaluate_board\<close>

lemma column_shape:
  assumes "board_shape_ok b" and "col < BOARD_WIDTH"
  shows "column b col = Inr (map (\<lambda>row. row ! col) b)"
  using assms by (auto simp: column_def board_shape_ok_def list_all_iff)

lemma where_one_column:
  assumes "length b = BOARD_HEIGHT"
  shows "where_one (map (\<lambda>row. row ! col) b)
           = filter (\<lambda>r. cell_occupied b r col) [0..<BOARD_HEIGHT]"
  using assms by (auto simp: where_one_def cell_occupied_def intro: filter_cong)

lemma find_filter:
  "find P xs = (case filter P xs of [] \<Rightarrow> None | x # _ \<Rightarrow> Some x)"
  by (induction xs) auto

lemma topmost_None:
  "topmost b c = None \<Longrightarrow> filter (\<lambda>r. cell_occupied b r c) [0..<BOARD_HEIGHT] = []"
  by (simp add: topmost_def find_filter split: list.splits)

lemma topmost_Some:
  assumes "topmost b c = Some t"
  shows "filter (\<lambda>r. cell_occupied b r c) [0..<BOARD_HEIGHT] \<noteq> []"
    and "hd (filter (\<lambda>r. cell_occupied b r c) [0..<BOARD_HEIGHT]) = t"
  using assms by (auto simp: topmost_def find_filter split: list.splits)

lemma count_holes_shape:
  assumes "board_shape_ok b" and "col < BOARD_WIDTH" and "\<forall>r \<in> set rows. r < BOARD_HEIGHT"
  shows "count_holes b col rows = Inr (int (length (filter (\<lambda>r. cell_empty b r col) rows)))"
  using assms(3)
proof (induction rows)
  case Nil
  show ?case by simp
next
  case (Cons r rows)
  have "array_get b (int r) (int col) = Inr (b ! r ! col)"
    using Cons.prems assms(2)
    by (simp add: array_get_shape [OF assms(1)] np_index_in_range)
  with Cons show ?case
    by (simp add: cell_empty_def)
qed

lemma evaluate_columns_shape:
  assumes "board_shape_ok b" and "\<forall>c \<in> set cols. c < BOARD_WIDTH"
  shows "evaluate_columns b cols hs holes
           = Inr (hs @ map (col_height b) cols,
                  holes + int (sum_list (map (col_holes b) cols)))"
  using assms(2)
proof (induction cols arbitrary: hs holes)
  case Nil
  show ?case by simp
next
  case (Cons col cols)
  have col: "col < BOARD_WIDTH" and rest: "\<forall>c \<in> set cols. c < BOARD_WIDTH"
    using Cons.prems by simp_all
  have lb: "length b = BOARD_HEIGHT"
    using assms(1) by (simp add: board_shape_ok_def)
  note IH = Cons.IH [OF rest]
  show ?case
  proof (cases "topmost b col")
    case None
    then show ?thesis
      by (simp add: column_shape [OF assms(1) col] where_one_column [OF lb] topmost_None
            IH col_height_def col_holes_def)
  next
    case (Some t)
    have ch: "count_holes b col [Suc t..<BOARD_HEIGHT]
                = Inr (int (length (filter (\<lambda>r. cell_empty b r col) [Suc t..<BOARD_HEIGHT])))"
      by (rule count_holes_shape [OF assms(1) col]) simp
    show ?thesis
      using topmost_Some [OF Some]
      by (simp add: column_shape [OF assms(1) col] where_one_column [OF lb] Some
            IH col_height_def col_holes_def ch)
  qed
qed

lemma sum_list_upt: "sum_list (map f [0..<n]) = (\<Sum>i = 0..<n. f i)"
  by (simp add: interv_sum_list_conv_sum_set_nat)

lemma bumpiness_of_map:
  "bumpiness_of (map h [0..<n]) = (\<Sum>i = 0..<n - 1. \<bar>h i - h (i + 1)\<bar>)"
proof -
  have "map (\<lambda>i. \<bar>map h [0..<n] ! i - map h [0..<n] ! (i + 1)\<bar>) [0..<n - 1]
          = map (\<lambda>i. \<bar>h i - h (i + 1)\<bar>) [0..<n - 1]"
    by (rule map_cong) auto
  then show ?thesis
    by (simp add: bumpiness_of_def sum_list_upt)
qed

lemma evaluate_board_eq:
  assumes "board_shape_ok (board s)"
  shows "evaluate_board s = Inr (reference_score (board s))"
proof -
  have "evaluate_columns (board s) [0..<BOARD_WIDTH] [] 0
          = Inr (map (col_height (board s)) [0..<BOARD_WIDTH],
                 int (sum_list (map (col_holes (board s)) [0..<BOARD_WIDTH])))"
    using evaluate_columns_shape [OF assms, of "[0..<BOARD_WIDTH]" "[]" 0] by simp
  then show ?thesis
    by (simp add: evaluate_board_def Let_def count_true_full_rows bumpiness_of_map
          sum_list_upt reference_score_def total_holes_def bumpiness_def
          aggregate_height_def)
qed


subsection \<open>best_move\<close>

lemma takeWhile_Cons_holds: "P k \<Longrightarrow> takeWhile P (k # ks) = k # takeWhile P ks"
  by simp

lemma takeWhile_Cons_fails: "\<not> P k \<Longrightarrow> takeWhile P (k # ks) = []"
  by simp

lemma find_append:
  "find P (xs @ ys) = (case find P xs of None \<Rightarrow> find P ys | Some x \<Rightarrow> Some x)"
  by (induction xs) simp_all

lemma column_range_upto:
  "column_range piece = [0..int BOARD_WIDTH - int (snd (shape piece))]"
  unfolding column_range_def
  by (rule nth_equalityI) simp_all

lemma can_place_Inr:
  assumes "board_shape_ok (board s)" and "0 \<le> x"
  shows "\<exists>ok. can_place s piece x y = Inr ok"
  using can_place_fits [OF assms] by simp

lemma can_place_True_height:
  assumes "can_place s piece x y = Inr True"
  shows "x + int (fst (shape piece)) \<le> int BOARD_HEIGHT"
  using assms by (auto simp: can_place_def split: prod.splits if_splits)

lemma drop_loop_takeWhile:
  assumes "board_shape_ok (board s)" and "0 \<le> x" and "x \<le> int BOARD_HEIGHT"
  shows "drop_loop s piece x y
           = Inr (x + int (length (takeWhile (\<lambda>k. can_place s piece (int k) y = Inr True)
                                    [Suc (nat x)..<Suc BOARD_HEIGHT])))"
  using assms
proof (induction s piece x y rule: drop_loop.induct)
  case (1 s piece x y)
  have shp: "board_shape_ok (board s)" and x0: "0 \<le> x" and xH: "x \<le> int BOARD_HEIGHT"
    using "1.prems" by simp_all
  have "0 \<le> x + 1"
    using x0 by simp
  from can_place_Inr [OF shp this] obtain ok
    where ok: "can_place s piece (x + 1) y = Inr ok"
    by blast
  have xn: "int (Suc (nat x)) = x + 1"
    using x0 by simp
  show ?case
  proof (cases ok)
    case True
    with ok have "x + 1 + int (fst (shape piece)) \<le> int BOARD_HEIGHT"
      by (auto dest: can_place_True_height)
    then have b: "0 \<le> x + 1" "x + 1 \<le> int BOARD_HEIGHT"
      using "1.prems" by simp_all
    have lt: "Suc (nat x) < Suc BOARD_HEIGHT"
      using b "1.prems" by simp
    have n2: "nat (x + 1) = Suc (nat x)"
      using "1.prems" by simp
    have "drop_loop s piece x y = drop_loop s piece (x + 1) y"
      using ok True by (subst drop_loop.simps) simp
    also have "\<dots> = Inr (x + 1 + int (length (takeWhile
                   (\<lambda>k. can_place s piece (int k) y = Inr True)
                   [Suc (nat (x + 1))..<Suc BOARD_HEIGHT])))"
      using "1.IH" [OF ok True shp b] .
    also have "\<dots> = Inr (x + int (length (takeWhile
                   (\<lambda>k. can_place s piece (int k) y = Inr True)
                   [Suc (nat x)..<Suc BOARD_HEIGHT])))"
    proof -
      have "can_place s piece (int (Suc (nat x))) y = Inr True"
        unfolding xn using ok True by simp
      then have "takeWhile (\<lambda>k. can_place s piece (int k) y = Inr True) (Suc (nat x) # ks)
                   = Suc (nat x) # takeWhile (\<lambda>k. can_place s piece (int k) y = Inr True) ks"
        for ks
        by (rule takeWhile_Cons_holds)
      then show ?thesis
        unfolding upt_conv_Cons [OF lt] n2 by simp
    qed
    finally show ?thesis .
  next
    case False
    have "takeWhile (\<lambda>k. can_place s piece (int k) y = Inr True)
            [Suc (nat x)..<Suc BOARD_HEIGHT] = []"
    proof (cases "Suc (nat x) < Suc BOARD_HEIGHT")
      case True
      have "can_place s piece (int (Suc (nat x))) y \<noteq> Inr True"
        unfolding xn using ok False by simp
      then show ?thesis
        unfolding upt_conv_Cons [OF True] by (rule takeWhile_Cons_fails)
    next
      case False
      then show ?thesis by simp
    qed
    moreover have "drop_loop s piece x y = Inr x"
      using ok False by (subst drop_loop.simps) simp
    ultimately show ?thesis by simp
  qed
qed

lemma drop_loop_rest_row:
  assumes "board_shape_ok (board s)"
  shows "drop_loop s piece 0 y = Inr (rest_row s piece y)"
  using drop_loop_takeWhile [OF assms, of 0 piece y] by (simp add: rest_row_def)

lemma drop_loop_can_place:
  assumes "drop_loop s piece x y = Inr x'" and "can_place s piece x y = Inr True"
  shows "can_place s piece x' y = Inr True"
  using assms
proof (induction s piece x y rule: drop_loop.induct)
  case (1 s piece x y)
  show ?case
  proof (cases "can_place s piece (x + 1) y")
    case (Inl e)
    with "1.prems"(1) show ?thesis
      by (subst (asm) drop_loop.simps) simp
  next
    case (Inr ok)
    show ?thesis
    proof (cases ok)
      case True
      have "drop_loop s piece (x + 1) y = Inr x'"
        using "1.prems"(1) Inr True by (subst (asm) drop_loop.simps) simp
      from "1.IH" [OF Inr True this] Inr True show ?thesis by simp
    next
      case False
      have "x' = x"
        using "1.prems"(1) Inr False by (subst (asm) drop_loop.simps) simp
      with "1.prems"(2) show ?thesis by simp
    qed
  qed
qed

lemma best_move_column_eq:
  assumes ok: "board_shape_ok (board s)"
  shows "best_move_column s piece r y bst
           = Inr (foldl better bst (column_candidate s r piece y), s)"
proof -
  from can_place_Inr [OF ok, of 0 piece y] obtain c0 where c0: "can_place s piece 0 y = Inr c0"
    by auto
  show ?thesis
  proof (cases c0)
    case False
    with c0 show ?thesis
      by (simp add: best_move_column_def column_candidate_def)
  next
    case True
    let ?x = "rest_row s piece y"
    let ?s1 = "s\<lparr>board := overlay (board s) piece ?x y\<rparr>"
    have dl: "drop_loop s piece 0 y = Inr ?x"
      using ok by (rule drop_loop_rest_row)
    have "can_place s piece ?x y = Inr True"
      by (rule drop_loop_can_place [OF dl]) (simp add: c0 True)
    moreover have "0 \<le> ?x"
      by (simp add: rest_row_def)
    ultimately have pp: "place_piece s piece ?x y = Inr (True, ?s1)"
      by (rule place_piece_True [OF ok, rotated])
    have "board_shape_ok (board ?s1)"
      by (simp add: board_shape_ok_overlay)
    then have ev: "evaluate_board ?s1 = Inr (reference_score (overlay (board s) piece ?x y))"
      using evaluate_board_eq [of ?s1] by simp
    show ?thesis
      using c0 True
      by (simp add: best_move_column_def column_candidate_def dl pp ev better_def Let_def)
  qed
qed

lemma best_move_columns_eq:
  assumes ok: "board_shape_ok (board s)"
  shows "best_move_columns s piece r ys bst
           = Inr (foldl better bst (concat (map (column_candidate s r piece) ys)), s)"
  by (induction ys arbitrary: bst) (simp_all add: best_move_column_eq [OF ok])

lemma best_move_rotations_eq:
  assumes ok: "board_shape_ok (board s)"
  shows "best_move_rotations s rps bst
           = Inr (foldl better bst
                    (concat (map (\<lambda>(r, piece).
                       concat (map (column_candidate s r piece)
                                 [0..int BOARD_WIDTH - int (snd (shape piece))])) rps)), s)"
proof (induction rps arbitrary: bst)
  case Nil
  show ?case by simp
next
  case (Cons rp rps)
  obtain r piece where rp: "rp = (r, piece)" by (cases rp)
  show ?case
    by (simp add: rp best_move_columns_eq [OF ok] column_range_upto Cons.IH)
qed

lemma foldl_better_first_max:
  "foldl better (None, NegInf) cs = first_max cs"
proof (induction cs rule: rev_induct)
  case Nil
  show ?case by (simp add: first_max_def)
next
  case (snoc c cs)
  obtain mv sc where c: "c = (mv, sc)" by (cases c)
  show ?case
  proof (cases "cs = []")
    case True
    then show ?thesis
      by (simp add: c better_def first_max_def)
  next
    case False
    let ?m = "Max (snd ` set cs)"
    have fin: "finite (snd ` set cs)" and ne: "snd ` set cs \<noteq> {}"
      using False by simp_all
    have "?m \<in> snd ` set cs"
      using fin ne by (rule Max_in)
    then obtain d where "d \<in> set cs" "snd d = ?m"
      by auto
    then have "find (\<lambda>c. snd c = ?m) cs \<noteq> None"
      unfolding find_None_iff by blast
    then obtain c' where c': "find (\<lambda>c. snd c = ?m) cs = Some c'"
      by auto
    then have sc': "snd c' = ?m"
      by (auto simp: find_Some_iff)
    have "first_max cs = (Some (fst c'), Fin ?m)"
      using False c' sc' by (cases c') (simp add: first_max_def)
    with snoc.IH have prev: "foldl better (None, NegInf) cs = (Some (fst c'), Fin ?m)"
      by simp
    have lhs: "foldl better (None, NegInf) (cs @ [c])
                 = (if sc > ?m then (Some mv, Fin sc) else (Some (fst c'), Fin ?m))"
      unfolding foldl_append prev by (simp add: better_def c)
    have mx: "Max (insert sc (snd ` set cs)) = max sc ?m"
      using fin ne by simp
    have rhs: "first_max (cs @ [c])
                 = (case find (\<lambda>d. snd d = max sc ?m) (cs @ [c]) of
                      None \<Rightarrow> (None, NegInf)
                    | Some (mv, sc) \<Rightarrow> (Some mv, Fin sc))"
      by (simp add: first_max_def c mx)
    show ?thesis
    proof (cases "sc > ?m")
      case True
      have "\<forall>d \<in> set cs. snd d \<noteq> sc"
      proof
        fix d assume "d \<in> set cs"
        then have "snd d \<le> ?m"
          using fin by (intro Max_ge) auto
        with True show "snd d \<noteq> sc" by simp
      qed
      then have "find (\<lambda>c. snd c = sc) cs = None"
        unfolding find_None_iff by blast
      then have "find (\<lambda>d. snd d = sc) (cs @ [c]) = Some c"
        by (simp add: find_append c)
      moreover have "max sc ?m = sc"
        using True by simp
      ultimately show ?thesis
        unfolding lhs rhs using True by (simp add: c)
    next
      case False
      then have m2: "max sc ?m = ?m" by simp
      have "find (\<lambda>d. snd d = ?m) (cs @ [c]) = Some c'"
        using c' by (simp add: find_append)
      then show ?thesis
        unfolding lhs rhs m2 using False sc' by (cases c') simp
    qed
  qed
qed

lemma best_move_eq:
  assumes "board_shape_ok (board s)"
  shows "best_move s rotations = Inr (first_max (candidates s rotations), s)"
  by (simp add: best_move_def best_move_rotations_eq [OF assms] foldl_better_first_max
        candidates_def)

text \<open>The resting row is the largest row reached by unit steps.\<close>

lemma rest_row_reached:
  assumes "1 \<le> k" and "k \<le> rest_row s piece y"
  shows "can_place s piece k y = Inr True"
proof -
  let ?P = "\<lambda>x. can_place s piece (int x) y = Inr True"
  let ?xs = "[1..<Suc BOARD_HEIGHT]"
  have j: "nat k - 1 < length (takeWhile ?P ?xs)"
    using assms by (simp add: rest_row_def)
  then have "takeWhile ?P ?xs ! (nat k - 1) \<in> set (takeWhile ?P ?xs)"
    by (rule nth_mem)
  then have "?P (takeWhile ?P ?xs ! (nat k - 1))"
    by (rule set_takeWhileD [THEN conjunct2])
  moreover have "takeWhile ?P ?xs ! (nat k - 1) = ?xs ! (nat k - 1)"
    using j by (rule takeWhile_nth)
  moreover have "nat k - 1 < length ?xs"
    using j length_takeWhile_le [of ?P ?xs] by linarith
  then have "?xs ! (nat k - 1) = nat k"
    using assms(1) by (simp del: upt_Suc)
  ultimately have "?P (nat k)"
    by simp
  with assms(1) show ?thesis
    by simp
qed

lemma rest_row_stops:
  "can_place s piece (rest_row s piece y + 1) y \<noteq> Inr True"
proof -
  let ?P = "\<lambda>x. can_place s piece (int x) y = Inr True"
  let ?xs = "[1..<Suc BOARD_HEIGHT]"
  let ?n = "length (takeWhile ?P ?xs)"
  show ?thesis
  proof (cases "?n < length ?xs")
    case True
    then have "\<not> ?P (?xs ! ?n)"
      by (rule nth_length_takeWhile)
    moreover have "?xs ! ?n = Suc ?n"
      using True by (simp del: upt_Suc)
    ultimately show ?thesis
      by (simp add: rest_row_def add.commute)
  next
    case False
    then have "?n = BOARD_HEIGHT"
      using length_takeWhile_le [of ?P ?xs] by simp
    then have "rest_row s piece y = int BOARD_HEIGHT"
      by (simp add: rest_row_def)
    then show ?thesis
      using can_place_True_height [of s piece "int BOARD_HEIGHT + 1" y] by auto
  qed
qed

text \<open>The search restores the board after every candidate, whatever the shape of the board.\<close>

lemma place_piece_frame:
  assumes "place_piece s piece x y = Inr (ok, s1)"
  shows "s1\<lparr>board := board s\<rparr> = s"
  using assms
  by (auto simp: place_piece_def case_prod_beta split: sum.splits if_splits)

lemma best_move_column_frame:
  assumes "best_move_column s piece r y bst = Inr (bst', s')"
  shows "s' = s"
  using assms
  by (auto simp: best_move_column_def Let_def split: sum.splits if_splits prod.splits
        dest: place_piece_frame)

lemma best_move_columns_frame:
  assumes "best_move_columns s piece r ys bst = Inr (bst', s')"
  shows "s' = s"
  using assms
proof (induction ys arbitrary: s bst)
  case Nil
  then show ?case by simp
next
  case (Cons y ys)
  then show ?case
    by (auto split: sum.splits prod.splits dest: best_move_column_frame)
qed

lemma best_move_rotations_frame:
  assumes "best_move_rotations s rps bst = Inr (bst', s')"
  shows "s' = s"
  using assms
proof (induction rps arbitrary: s bst)
  case Nil
  then show ?case by simp
next
  case (Cons rp rps)
  obtain r piece where rp: "rp = (r, piece)" by (cases rp)
  from Cons show ?case
    by (auto simp: rp split: sum.splits prod.splits dest: best_move_columns_frame)
qed

subsection \<open>The shape of the board is kept\<close>

lemma init_solver_shape: "board_shape_ok (board init_solver)"
  by (simp add: init_solver_def board_shape_ok_def list_all_iff)

lemma place_piece_keeps_shape:
  assumes "board_shape_ok (board s)" and "place_piece s piece x y = Inr (ok, s')"
  shows "board_shape_ok (board s')"
proof (cases "can_place s piece x y")
  case (Inl e)
  with assms(2) show ?thesis
    by (simp add: place_piece_def)
next
  case (Inr c)
  show ?thesis
  proof (cases c)
    case True
    with Inr have "can_place s piece x y = Inr True"
      by simp
    from place_piece_True_targets [OF assms(1) this] assms(2) show ?thesis
      by auto
  next
    case False
    with Inr assms show ?thesis
      by (auto simp: place_piece_False)
  qed
qed

lemma clear_lines_keeps_shape:
  assumes "board_shape_ok (board s)" and "clear_lines s = Inr (n, s')"
  shows "board_shape_ok (board s')"
  using assms board_shape_ok_compacted [OF assms(1)]
  by (auto simp: clear_lines_eq after_clear_def Let_def split: if_splits)

section \<open>The claims\<close>

subsection \<open>Rotation lists\<close>

text \<open>
  Claim C9. For every shape, \<open>get_rotations\<close> returns the four quarter-turn rotations
  (by 0, 1, 2 and 3 quarter turns, the first being the shape itself) with exact
  duplicates dropped and the first occurrence kept; its elements are pairwise distinct;
  and for the seven base tetrominoes the lengths are I 2, O 1, T 4, L 4, J 4, S 2, Z 2.
\<close>

theorem C9_get_rotations:
  "get_rotations piece
     = drop_duplicates [rot90 piece 0, rot90 piece 1, rot90 piece 2, rot90 piece 3]
   \<and> rot90 piece 0 = piece
   \<and> distinct (get_rotations piece)
   \<and> map (\<lambda>(k, rs). (k, length rs)) TETROMINOS =
       [(''I'', 2), (''O'', 1), (''T'', 4), (''L'', 4), (''J'', 4), (''S'', 2), (''Z'', 2)]"
proof -
  have u: "[0..<4] = [0, 1, 2, 3]"
    by (simp add: upt_rec)
  have a: "get_rotations piece
             = drop_duplicates [rot90 piece 0, rot90 piece 1, rot90 piece 2, rot90 piece 3]"
    unfolding get_rotations_def get_rotations_loop_eq u by simp
  have b: "rot90 piece 0 = piece"
    by (simp add: rot90_def)
  have c: "distinct (get_rotations piece)"
    unfolding a by (rule distinct_drop_duplicates)
  have d: "map (\<lambda>(k, rs). (k, length rs)) TETROMINOS =
       [(''I'', 2), (''O'', 1), (''T'', 4), (''L'', 4), (''J'', 4), (''S'', 2), (''Z'', 2)]"
    by code_simp
  from a b c d show ?thesis by blast
qed

subsection \<open>can_place\<close>

text \<open>
  Claim C3, as amended. On a board of the right shape, for every piece, every row
  \<open>x \<ge> 0\<close> and every column \<open>y\<close>, \<open>can_place\<close> returns false when the box of the
  piece exceeds the bounds of the grid or an occupied piece cell lies on an occupied
  grid cell, and true otherwise. \<open>can_place\<close> has no assignment to the solver: in the
  model it returns a value and no state.
\<close>

theorem C3_can_place_from_row_0:
  assumes "board_shape_ok (board s)" and "0 \<le> x"
  shows "can_place s piece x y
           = Inr (\<not> (exceeds_bounds piece x y \<or> overlaps (board s) piece x y))"
  using assms by (rule can_place_fits)

theorem C3_can_place_from_row_0_witness:
  "board_shape_ok (board init_solver) \<and> (0 :: int) \<le> 19
   \<and> can_place init_solver [[1, 1, 1, 1]] 19 0 = Inr True
   \<and> can_place init_solver [[1, 1, 1, 1]] 19 7 = Inr False"
proof -
  have h: "board_shape_ok (board init_solver)"
    by code_simp
  have e1: "\<not> (exceeds_bounds [[1, 1, 1, 1]] 19 0 \<or> overlaps (board init_solver) [[1, 1, 1, 1]] 19 0)"
    by code_simp
  have e2: "exceeds_bounds [[1, 1, 1, 1]] 19 7"
    by code_simp
  show ?thesis
    using h e1 e2
      C3_can_place_from_row_0 [OF h, of 19 "[[1, 1, 1, 1]]" 0]
      C3_can_place_from_row_0 [OF h, of 19 "[[1, 1, 1, 1]]" 7]
    by simp
qed

text \<open>
  The claim as stated fails. With \<open>x = -1\<close> the horizontal I piece lies outside the
  grid, yet \<open>can_place\<close> returns true on the empty board: there is no check of
  \<open>x < 0\<close> and row \<open>-1\<close> is read as the last row. And a piece whose left column is
  empty, placed at \<open>y = -1\<close>, has every occupied cell inside the grid and on an empty
  cell, yet \<open>can_place\<close> returns false: the test is on the box of the piece.
\<close>

theorem C3_counterexample:
  "can_place init_solver [[1, 1, 1, 1]] (- 1) 0 = Inr True
   \<and> occupied_cell_outside [[1, 1, 1, 1]] (- 1) 0
   \<and> can_place init_solver [[0, 1], [0, 1]] 0 (- 1) = Inr False
   \<and> \<not> occupied_cell_outside [[0, 1], [0, 1]] 0 (- 1)
   \<and> \<not> overlaps (board init_solver) [[0, 1], [0, 1]] 0 (- 1)"
  by code_simp

subsection \<open>place_piece\<close>

text \<open>
  Claim C7, as amended. On a board of the right shape, for every piece and all \<open>x\<close>
  and \<open>y\<close>: if \<open>can_place\<close> is false, \<open>place_piece\<close> returns false and the solver
  (grid, score, lines_cleared, level) is unchanged; if \<open>can_place\<close> is true and
  \<open>x \<ge> 0\<close>, \<open>place_piece\<close> returns true and the grid becomes the old grid with
  exactly the cells \<open>(x + i, y + j)\<close> of the occupied piece cells \<open>(i, j)\<close> set to
  occupied, the counters unchanged.
\<close>

theorem C7_place_piece:
  assumes "board_shape_ok (board s)"
  shows "(can_place s piece x y = Inr False \<longrightarrow> place_piece s piece x y = Inr (False, s))
       \<and> (0 \<le> x \<and> can_place s piece x y = Inr True \<longrightarrow>
            place_piece s piece x y = Inr (True, s\<lparr>board := overlay (board s) piece x y\<rparr>))"
  using place_piece_False place_piece_True [OF assms] by blast

theorem C7_place_piece_witness:
  "board_shape_ok (board init_solver)
   \<and> can_place init_solver [[0, 1, 0], [1, 1, 1]] 19 0 = Inr False
   \<and> place_piece init_solver [[0, 1, 0], [1, 1, 1]] 19 0 = Inr (False, init_solver)
   \<and> (0 :: int) \<le> 18
   \<and> can_place init_solver [[0, 1, 0], [1, 1, 1]] 18 0 = Inr True
   \<and> place_piece init_solver [[0, 1, 0], [1, 1, 1]] 18 0
       = Inr (True, init_solver\<lparr>board := replicate 18 (replicate 10 0)
               @ [[0, 1, 0, 0, 0, 0, 0, 0, 0, 0], [1, 1, 1, 0, 0, 0, 0, 0, 0, 0]]\<rparr>)"
proof -
  have h: "board_shape_ok (board init_solver)"
    by code_simp
  have f: "can_place init_solver [[0, 1, 0], [1, 1, 1]] 19 0 = Inr False"
    by code_simp
  have t: "can_place init_solver [[0, 1, 0], [1, 1, 1]] 18 0 = Inr True"
    by code_simp
  have o: "overlay (board init_solver) [[0, 1, 0], [1, 1, 1]] 18 0
             = replicate 18 (replicate 10 0)
               @ [[0, 1, 0, 0, 0, 0, 0, 0, 0, 0], [1, 1, 1, 0, 0, 0, 0, 0, 0, 0]]"
    by code_simp
  show ?thesis
    using h f t o
      C7_place_piece [OF h, of "[[0, 1, 0], [1, 1, 1]]" 19 0]
      C7_place_piece [OF h, of "[[0, 1, 0], [1, 1, 1]]" 18 0]
    by simp
qed

text \<open>
  The claim as stated, for all \<open>x\<close>, fails. With the T piece at \<open>x = -1\<close>, \<open>y = 4\<close> on
  the empty board \<open>can_place\<close> is true, although the top cell of the piece lies outside
  the grid, and \<open>place_piece\<close> sets the cell \<open>(19, 5)\<close> in the last row, which is no
  cell \<open>(x + i, y + j)\<close> of the piece: row \<open>-1\<close> is written as the last row. The grid
  with exactly the corresponding cells set has no cell set in row 19.
\<close>

theorem C7_counterexample:
  "can_place init_solver [[0, 1, 0], [1, 1, 1]] (- 1) 4 = Inr True
   \<and> occupied_cell_outside [[0, 1, 0], [1, 1, 1]] (- 1) 4
   \<and> place_piece init_solver [[0, 1, 0], [1, 1, 1]] (- 1) 4
       = Inr (True, init_solver\<lparr>board := [0, 0, 0, 0, 1, 1, 1, 0, 0, 0]
               # replicate 18 (replicate 10 0) @ [[0, 0, 0, 0, 0, 1, 0, 0, 0, 0]]\<rparr>)
   \<and> overlay (board init_solver) [[0, 1, 0], [1, 1, 1]] (- 1) 4
       = [0, 0, 0, 0, 1, 1, 1, 0, 0, 0] # replicate 19 (replicate 10 0)
   \<and> place_piece init_solver [[0, 1, 0], [1, 1, 1]] (- 1) 4
       \<noteq> Inr (True, init_solver\<lparr>board :=
               overlay (board init_solver) [[0, 1, 0], [1, 1, 1]] (- 1) 4\<rparr>)"
  by code_simp

subsection \<open>best_move\<close>

text \<open>
  Claim C10. Called with an empty rotation list, \<open>best_move\<close> returns
  \<open>(None, -inf)\<close> and leaves the grid and the counters unchanged.
\<close>

theorem C10_best_move_no_rotations:
  "best_move s [] = Inr ((None, NegInf), s)"
  by (simp add: best_move_def)

text \<open>
  Claim C1, as amended. On the empty 10 x 20 board, \<open>best_move\<close> applied to the
  precomputed rotations of the I piece returns rotation index 0 (the horizontal 1 x 4
  orientation) at row \<open>x = 19\<close>, column \<open>y = 0\<close>, and the evaluator score of that
  placement is \<open>-214\<close>: no full row, four columns of height 1, no hole, and a
  bumpiness of 1 between the columns 3 and 4, that is
  \<open>0 * 500 + 4 * (-50) + 0 * (-50) + 1 * (-10) + 4 * (-1)\<close>.
\<close>

theorem C1_best_move_I_on_empty_board:
  "map_of TETROMINOS ''I'' = Some [[[1, 1, 1, 1]], [[1], [1], [1], [1]]]
   \<and> best_move init_solver [[[1, 1, 1, 1]], [[1], [1], [1], [1]]]
       = Inr ((Some (19, 0, 0), Fin (- 214)), init_solver)
   \<and> place_piece init_solver [[1, 1, 1, 1]] 19 0
       = Inr (True, init_solver\<lparr>board := replicate 19 (replicate 10 0)
               @ [[1, 1, 1, 1, 0, 0, 0, 0, 0, 0]]\<rparr>)
   \<and> evaluate_columns (replicate 19 (replicate 10 0) @ [[1, 1, 1, 1, 0, 0, 0, 0, 0, 0]])
        [0..<BOARD_WIDTH] [] 0 = Inr ([1, 1, 1, 1, 0, 0, 0, 0, 0, 0], 0)
   \<and> bumpiness_of [1, 1, 1, 1, 0, 0, 0, 0, 0, 0] = 1
   \<and> evaluate_board (init_solver\<lparr>board := replicate 19 (replicate 10 0)
               @ [[1, 1, 1, 1, 0, 0, 0, 0, 0, 0]]\<rparr>) = Inr (- 214)"
  by code_simp

text \<open>
  The claim as stated fails: the score returned by \<open>best_move\<close> on the empty board for
  the I piece is not \<open>-204\<close>.
\<close>

theorem C1_counterexample:
  "(case best_move init_solver (the (map_of TETROMINOS ''I'')) of
      Inl e \<Rightarrow> None
    | Inr ((mv, sc), s') \<Rightarrow> Some sc) \<noteq> Some (Fin (- 204))"
  by code_simp

subsection \<open>clear_lines\<close>

text \<open>
  Claim C5. On a board of the right shape with \<open>n\<close> full rows, \<open>clear_lines\<close> returns
  \<open>n\<close>. If \<open>n = 0\<close> the solver (grid and counters) is unchanged. If \<open>n \<ge> 1\<close> the new
  grid is \<open>n\<close> empty rows on top of the rows that were not full, in their original
  order; it has the same dimensions; and its count of occupied cells is the old count
  less \<open>n * W\<close>.
\<close>

theorem C5_clear_lines_grid:
  assumes "board_shape_ok (board s)"
  shows "\<exists>s'. clear_lines s = Inr (int (full_count (board s)), s')
           \<and> (if full_count (board s) = 0 then s' = s
               else board s' = compacted (board s)
                  \<and> board_shape_ok (board s')
                  \<and> occupied_count (board s') + full_count (board s) * BOARD_WIDTH
                      = occupied_count (board s))"
  using clear_lines_eq [OF assms] board_shape_ok_compacted [OF assms]
    occupied_count_compacted [OF assms]
  by (simp add: after_clear_def Let_def)

theorem C5_clear_lines_grid_witness:
  "board_shape_ok (board init_solver)
   \<and> (\<exists>s'. clear_lines init_solver = Inr (0, s') \<and> s' = init_solver)
   \<and> board_shape_ok (replicate 17 (replicate 10 0)
        @ [replicate 10 1, [1, 0, 1, 1, 1, 1, 1, 1, 1, 1], replicate 10 1])
   \<and> (\<exists>s'. clear_lines (init_solver\<lparr>board := replicate 17 (replicate 10 0)
               @ [replicate 10 1, [1, 0, 1, 1, 1, 1, 1, 1, 1, 1], replicate 10 1]\<rparr>)
             = Inr (2, s')
           \<and> board s' = replicate 19 (replicate 10 0) @ [[1, 0, 1, 1, 1, 1, 1, 1, 1, 1]]
           \<and> occupied_count (board s') + 2 * 10 = 29)"
proof -
  let ?b = "replicate 17 (replicate 10 0)
        @ [replicate 10 1, [1, 0, 1, 1, 1, 1, 1, 1, 1, 1], replicate 10 1]"
  have h0: "board_shape_ok (board init_solver)"
    by code_simp
  have n0: "full_count (board init_solver) = 0"
    by code_simp
  have h1: "board_shape_ok (board (init_solver\<lparr>board := ?b\<rparr>))"
    by code_simp
  have n1: "full_count ?b = 2"
    by code_simp
  have c1: "compacted ?b = replicate 19 (replicate 10 0) @ [[1, 0, 1, 1, 1, 1, 1, 1, 1, 1]]"
    by code_simp
  have o1: "occupied_count ?b = 29"
    by code_simp
  have w: "BOARD_WIDTH = 10"
    by (simp add: BOARD_WIDTH_def)
  show ?thesis
    using h0 h1 C5_clear_lines_grid [OF h0] C5_clear_lines_grid [OF h1]
    by (auto simp: n0 n1 c1 o1 w)
qed

text \<open>
  Claim C6, as amended. On a board of the right shape with \<open>n \<ge> 1\<close> full rows, and
  provided the counters fit (the 64-bit arithmetic of the clear does not overflow),
  \<open>clear_lines\<close> increases \<open>lines_cleared\<close> by \<open>n\<close>, sets \<open>level\<close> to
  \<open>max(1, lines_cleared // 10 + 1)\<close> of the new \<open>lines_cleared\<close>, and increases
  \<open>score\<close> by \<open>base_points(n) * level\<close> when \<open>1 \<le> n \<le> 4\<close> and by
  \<open>1000 * level * n / 4\<close>, truncated, when \<open>n > 4\<close>, with the new level.
\<close>

theorem C6_clear_lines_counters:
  assumes "board_shape_ok (board s)" and "1 \<le> full_count (board s)"
    and "counters_fit s (int (full_count (board s)))"
  shows "\<exists>s'. clear_lines s = Inr (int (full_count (board s)), s')
           \<and> lines_cleared s' = lines_cleared s + int (full_count (board s))
           \<and> level s' = max 1 (lines_cleared s' div 10 + 1)
           \<and> score s' = score s + line_clear_award (int (full_count (board s))) (level s')"
  using clear_lines_eq [OF assms(1)] assms(2) after_clear_counters [OF assms(3,2)]
  by simp

theorem C6_clear_lines_counters_witness:
  "(\<exists>s'. clear_lines \<lparr>board = replicate 17 (replicate 10 0) @ replicate 3 (replicate 10 1),
                      score = 40, lines_cleared = 8, level = 1\<rparr> = Inr (3, s')
         \<and> lines_cleared s' = 11 \<and> level s' = 2 \<and> score s' = 1040)
   \<and> (\<exists>s'. clear_lines \<lparr>board = replicate 15 (replicate 10 0) @ replicate 5 (replicate 10 1),
                      score = 40, lines_cleared = 8, level = 1\<rparr> = Inr (5, s')
         \<and> lines_cleared s' = 13 \<and> level s' = 2 \<and> score s' = 2540)"
proof -
  let ?s3 = "\<lparr>board = replicate 17 (replicate 10 0) @ replicate 3 (replicate 10 1),
              score = 40, lines_cleared = 8, level = 1\<rparr>"
  let ?s5 = "\<lparr>board = replicate 15 (replicate 10 0) @ replicate 5 (replicate 10 1),
              score = 40, lines_cleared = 8, level = 1\<rparr>"
  have h3: "board_shape_ok (board ?s3)"
    by code_simp
  have n3: "full_count (board ?s3) = 3"
    by code_simp
  have p3: "1 \<le> full_count (board ?s3)"
    unfolding n3 by simp
  have c3: "counters_fit ?s3 (int (full_count (board ?s3)))"
    unfolding n3 by code_simp
  have a3: "line_clear_award 3 2 = 1000"
    by (simp add: line_clear_award_def base_points_def)
  have h5: "board_shape_ok (board ?s5)"
    by code_simp
  have n5: "full_count (board ?s5) = 5"
    by code_simp
  have p5: "1 \<le> full_count (board ?s5)"
    unfolding n5 by simp
  have c5: "counters_fit ?s5 (int (full_count (board ?s5)))"
    unfolding n5 by code_simp
  have a5: "line_clear_award 5 2 = 2500"
    by (simp add: line_clear_award_def trunc_div_def)
  from C6_clear_lines_counters [OF h3 p3 c3] have r3:
    "\<exists>s'. clear_lines ?s3 = Inr (3, s')
         \<and> lines_cleared s' = 11 \<and> level s' = 2 \<and> score s' = 1040"
    unfolding n3 by (auto simp: a3)
  from C6_clear_lines_counters [OF h5 p5 c5] have r5:
    "\<exists>s'. clear_lines ?s5 = Inr (5, s')
         \<and> lines_cleared s' = 13 \<and> level s' = 2 \<and> score s' = 2540"
    unfolding n5 by (auto simp: a5)
  from r3 r5 show ?thesis
    by blast
qed

text \<open>
  The claim as stated, for all counters, fails. With one full row, \<open>lines_cleared = 10\<close>
  and \<open>score = 9223372036854775758\<close>, the award is \<open>100 * 2 = 200\<close> and the sum
  \<open>9223372036854775958\<close> exceeds the largest 64-bit integer: the score after the clear
  is \<open>-9223372036854775658\<close>, not the score before plus 200.
\<close>

theorem C6_counterexample:
  "clear_lines \<lparr>board = replicate 19 (replicate 10 0) @ [replicate 10 1],
                score = 9223372036854775758, lines_cleared = 10, level = 2\<rparr>
     = Inr (1, \<lparr>board = replicate 20 (replicate 10 0),
                score = - 9223372036854775658, lines_cleared = 11, level = 2\<rparr>)
   \<and> line_clear_award 1 2 = 200
   \<and> - 9223372036854775658 \<noteq> (9223372036854775758 + line_clear_award 1 2 :: int)"
  by code_simp

subsection \<open>evaluate_board\<close>

text \<open>
  Claim C4. On a board of the right shape, \<open>evaluate_board\<close> returns
  \<open>f * 500 + (4 - f) * (-50) + holes * (-50) + bumpiness * (-10) + aggregate_height * (-1)\<close>
  for the number \<open>f\<close> of full rows and the features of the grid as defined above, the
  factor \<open>4 - f\<close> not clamped; and the result is the same whatever the score,
  lines_cleared and level of the solver.
\<close>

theorem C4_evaluate_board:
  assumes "board_shape_ok (board s)"
  shows "evaluate_board s = Inr (reference_score (board s))
       \<and> evaluate_board (s\<lparr>score := sc, lines_cleared := lc, level := lv\<rparr>) = evaluate_board s"
  using evaluate_board_eq [OF assms] by (simp add: evaluate_board_def)

theorem C4_evaluate_board_witness:
  "board_shape_ok (replicate 15 (replicate 10 0)
      @ [[0, 0, 0, 1, 0, 0, 0, 0, 0, 0],
         [1, 1, 1, 1, 1, 0, 1, 1, 1, 1],
         [1, 0, 1, 0, 1, 0, 1, 1, 1, 1],
         [1, 1, 1, 1, 1, 1, 1, 1, 1, 1],
         [1, 1, 1, 1, 1, 1, 1, 1, 1, 1]])
   \<and> evaluate_board (init_solver\<lparr>board := replicate 15 (replicate 10 0)
      @ [[0, 0, 0, 1, 0, 0, 0, 0, 0, 0],
         [1, 1, 1, 1, 1, 0, 1, 1, 1, 1],
         [1, 0, 1, 0, 1, 0, 1, 1, 1, 1],
         [1, 1, 1, 1, 1, 1, 1, 1, 1, 1],
         [1, 1, 1, 1, 1, 1, 1, 1, 1, 1]]\<rparr>) = Inr 701
   \<and> evaluate_board \<lparr>board = replicate 15 (replicate 10 0) @ replicate 5 (replicate 10 1),
                      score = 7, lines_cleared = 3, level = 1\<rparr> = Inr 2500"
proof -
  let ?b = "replicate 15 (replicate 10 0)
      @ [[0, 0, 0, 1, 0, 0, 0, 0, 0, 0],
         [1, 1, 1, 1, 1, 0, 1, 1, 1, 1],
         [1, 0, 1, 0, 1, 0, 1, 1, 1, 1],
         [1, 1, 1, 1, 1, 1, 1, 1, 1, 1],
         [1, 1, 1, 1, 1, 1, 1, 1, 1, 1]]"
  let ?s5 = "\<lparr>board = replicate 15 (replicate 10 0) @ replicate 5 (replicate 10 1),
              score = 7, lines_cleared = 3, level = 1\<rparr>"
  have h: "board_shape_ok (board (init_solver\<lparr>board := ?b\<rparr>))"
    by code_simp
  have v: "reference_score ?b = 701"
    by code_simp
  have h5: "board_shape_ok (board ?s5)"
    by code_simp
  have v5: "reference_score (replicate 15 (replicate 10 0) @ replicate 5 (replicate 10 1)) = 2500"
    by code_simp
  show ?thesis
    using h C4_evaluate_board [OF h] C4_evaluate_board [OF h5]
    by (simp add: v v5)
qed

subsection \<open>The search of best_move\<close>

text \<open>
  Claim C2. On a board of the right shape, for every rotation list, \<open>best_move\<close>
  returns the first maximum of the candidates: the rotations are taken in the order of
  the list and the columns \<open>y\<close> from 0 to \<open>W - width\<close>; a column where
  \<open>can_place\<close> fails at row 0 gives no candidate; otherwise the piece rests at the
  largest \<open>x\<close> reached from 0 in steps of one while \<open>can_place\<close> holds at the next
  row, and the candidate is that placement with the evaluator score of the resulting
  grid. Among equal scores the earliest candidate wins (earliest rotation, then earliest
  column), and the result is the pair of the placement \<open>(x, y, r)\<close> and its score;
  without any candidate it is \<open>(None, -inf)\<close>. The resting row is such that
  \<open>can_place\<close> holds at every row from 1 up to it and fails at the row after it.
\<close>

theorem C2_best_move_first_maximum:
  assumes "board_shape_ok (board s)"
  shows "best_move s rotations = Inr (first_max (candidates s rotations), s)
       \<and> (\<forall>k. 1 \<le> k \<and> k \<le> rest_row s piece y \<longrightarrow> can_place s piece k y = Inr True)
       \<and> can_place s piece (rest_row s piece y + 1) y \<noteq> Inr True"
  using best_move_eq [OF assms] rest_row_reached rest_row_stops by blast

theorem C2_best_move_first_maximum_witness:
  "board_shape_ok (board init_solver)
   \<and> candidates init_solver [[[1, 1, 1, 1]], [[1], [1], [1], [1]]]
       = [((19, 0, 0), - 214), ((19, 1, 0), - 224), ((19, 2, 0), - 224), ((19, 3, 0), - 224),
          ((19, 4, 0), - 224), ((19, 5, 0), - 224), ((19, 6, 0), - 214),
          ((16, 0, 1), - 244), ((16, 1, 1), - 284), ((16, 2, 1), - 284), ((16, 3, 1), - 284),
          ((16, 4, 1), - 284), ((16, 5, 1), - 284), ((16, 6, 1), - 284), ((16, 7, 1), - 284),
          ((16, 8, 1), - 284), ((16, 9, 1), - 244)]
   \<and> best_move init_solver [[[1, 1, 1, 1]], [[1], [1], [1], [1]]]
       = Inr ((Some (19, 0, 0), Fin (- 214)), init_solver)
   \<and> rest_row init_solver [[1, 1, 1, 1]] 0 = 19
   \<and> can_place init_solver [[1, 1, 1, 1]] 19 0 = Inr True
   \<and> can_place init_solver [[1, 1, 1, 1]] 20 0 \<noteq> Inr True
   \<and> board_shape_ok (replicate 10 1 # replicate 19 (replicate 10 0))
   \<and> best_move (init_solver\<lparr>board := replicate 10 1 # replicate 19 (replicate 10 0)\<rparr>)
        [[[1, 1, 1, 1]], [[1], [1], [1], [1]]]
       = Inr ((None, NegInf),
              init_solver\<lparr>board := replicate 10 1 # replicate 19 (replicate 10 0)\<rparr>)"
proof -
  let ?rots = "[[[1, 1, 1, 1]], [[1], [1], [1], [1]]]"
  let ?sb = "init_solver\<lparr>board := replicate 10 1 # replicate 19 (replicate 10 0)\<rparr>"
  have h: "board_shape_ok (board init_solver)"
    by code_simp
  have c: "candidates init_solver ?rots
       = [((19, 0, 0), - 214), ((19, 1, 0), - 224), ((19, 2, 0), - 224), ((19, 3, 0), - 224),
          ((19, 4, 0), - 224), ((19, 5, 0), - 224), ((19, 6, 0), - 214),
          ((16, 0, 1), - 244), ((16, 1, 1), - 284), ((16, 2, 1), - 284), ((16, 3, 1), - 284),
          ((16, 4, 1), - 284), ((16, 5, 1), - 284), ((16, 6, 1), - 284), ((16, 7, 1), - 284),
          ((16, 8, 1), - 284), ((16, 9, 1), - 244)]"
    by code_simp
  have f: "first_max
        [((19, 0, 0), - 214), ((19, 1, 0), - 224), ((19, 2, 0), - 224), ((19, 3, 0), - 224),
          ((19, 4, 0), - 224), ((19, 5, 0), - 224), ((19, 6, 0), - 214),
          ((16, 0, 1), - 244), ((16, 1, 1), - 284), ((16, 2, 1), - 284), ((16, 3, 1), - 284),
          ((16, 4, 1), - 284), ((16, 5, 1), - 284), ((16, 6, 1), - 284), ((16, 7, 1), - 284),
          ((16, 8, 1), - 284), ((16, 9, 1), - 244 :: int)]
        = (Some (19 :: int, 0 :: int, 0 :: nat), Fin (- 214))"
    by code_simp
  have hb: "board_shape_ok (board ?sb)"
    by code_simp
  have cb: "candidates ?sb ?rots = []"
    by code_simp
  have fb: "first_max [] = (None, NegInf)"
    by (simp add: first_max_def)
  have r1: "best_move init_solver ?rots = Inr ((Some (19, 0, 0), Fin (- 214)), init_solver)"
    using C2_best_move_first_maximum [OF h, of ?rots, THEN conjunct1] unfolding c f .
  have r2: "best_move ?sb ?rots = Inr ((None, NegInf), ?sb)"
    using C2_best_move_first_maximum [OF hb, of ?rots, THEN conjunct1] unfolding cb fb .
  have rr: "rest_row init_solver [[1, 1, 1, 1]] 0 = 19"
    by code_simp
  have up: "can_place init_solver [[1, 1, 1, 1]] 19 0 = Inr True"
    using C2_best_move_first_maximum [OF h, of ?rots "[[1, 1, 1, 1]]" 0] rr by simp
  have stop: "can_place init_solver [[1, 1, 1, 1]] 20 0 \<noteq> Inr True"
    using C2_best_move_first_maximum [OF h, of ?rots "[[1, 1, 1, 1]]" 0] rr by simp
  have hb': "board_shape_ok (replicate 10 1 # replicate 19 (replicate 10 0))"
    using hb by simp
  from h c r1 rr up stop hb' r2 show ?thesis
    by blast
qed

text \<open>
  Claim C8. After \<open>best_move\<close> returns, the solver (grid, score, lines_cleared and
  level) equals the solver before the call, for every solver and every rotation list;
  and on a board of the right shape \<open>best_move\<close> does return.
\<close>

theorem C8_best_move_restores_state:
  "(best_move s rotations = Inr (res, s') \<longrightarrow> s' = s)
   \<and> (board_shape_ok (board s) \<longrightarrow> (\<exists>res. best_move s rotations = Inr (res, s)))"
  using best_move_rotations_frame [of s "enumerate 0 rotations" "(None, NegInf)" res s']
    best_move_eq [of s rotations]
  by (auto simp: best_move_def)

theorem C8_best_move_restores_state_witness:
  "board_shape_ok (replicate 18 (replicate 10 0)
      @ [[1, 1, 0, 0, 0, 0, 1, 1, 1, 1], [1, 1, 1, 0, 1, 1, 1, 1, 1, 1]])
   \<and> best_move
        \<lparr>board = replicate 18 (replicate 10 0)
           @ [[1, 1, 0, 0, 0, 0, 1, 1, 1, 1], [1, 1, 1, 0, 1, 1, 1, 1, 1, 1]],
         score = 130, lines_cleared = 12, level = 2\<rparr>
        [[[0, 1, 0], [1, 1, 1]], [[0, 1], [1, 1], [0, 1]]]
      = Inr ((Some (17, 2, 1), Fin 291),
        \<lparr>board = replicate 18 (replicate 10 0)
           @ [[1, 1, 0, 0, 0, 0, 1, 1, 1, 1], [1, 1, 1, 0, 1, 1, 1, 1, 1, 1]],
         score = 130, lines_cleared = 12, level = 2\<rparr>)"
proof -
  let ?s = "\<lparr>board = replicate 18 (replicate 10 0)
           @ [[1, 1, 0, 0, 0, 0, 1, 1, 1, 1], [1, 1, 1, 0, 1, 1, 1, 1, 1, 1]],
         score = 130, lines_cleared = 12, level = 2\<rparr>"
  let ?rots = "[[[0, 1, 0], [1, 1, 1]], [[0, 1], [1, 1], [0, 1]]]"
  have h: "board_shape_ok (board ?s)"
    by code_simp
  have e: "best_move ?s ?rots = Inr ((Some (17, 2, 1), Fin 291), ?s)"
    by code_simp
  from C8_best_move_restores_state [of ?s ?rots "(Some (17, 2, 1), Fin 291)" ?s] e h
  have "\<exists>res. best_move ?s ?rots = Inr (res, ?s)"
    by blast
  with e h show ?thesis
    by simp
qed

end
